theory Spec2Isabelle
  imports Complex_Main
begin

section \<open>Rent reconciliation: matcher, findings engine and findings merge\<close>

text \<open>
  A shallow embedding of \<^verbatim>\<open>recon/matcher.py\<close>, \<^verbatim>\<open>recon/rules.py\<close> and the merge loop
  of \<^verbatim>\<open>app.py\<close> / \<^verbatim>\<open>streamlit_app.py\<close>.

  Conventions of the model:
  \<^item> Text is ASCII. On ASCII text Python's \<^verbatim>\<open>str.upper\<close>, \<^verbatim>\<open>str.strip\<close>, \<^verbatim>\<open>\b\<close> and
    \<^verbatim>\<open>\d\<close> agree with the definitions below; non-ASCII text is outside the model.
  \<^item> An amount is the real number that the parsed floating-point value denotes; a null
    amount (NaN after \<^verbatim>\<open>pd.to_numeric(..., errors='coerce')\<close>) is \<open>None\<close>. Subtraction,
    interpolation and comparison are exact, and the literal \<^verbatim>\<open>0.05\<close> is \<open>5 / 100\<close>:
    rounding of floating-point arithmetic is not modelled.
  \<^item> A data frame read by \<^verbatim>\<open>pd.read_csv\<close> carries the index \<open>0, 1, ..., n - 1\<close>, so a
    data set is a list of rows and the index of a row is its position.
  \<^item> Cells are already parsed: the date parser and the numeric coercion of
    \<^verbatim>\<open>preprocess\<close> are taken as given, and the derived columns that no matching pass
    reads (\<^verbatim>\<open>_norm_text\<close>, \<^verbatim>\<open>_norm_customer\<close>, \<^verbatim>\<open>issue_date\<close>) are left out.
\<close>

subsection \<open>Characters and strings\<close>

definition uppercase_letters :: string where
  "uppercase_letters = ''ABCDEFGHIJKLMNOPQRSTUVWXYZ''"

definition lowercase_letters :: string where
  "lowercase_letters = ''abcdefghijklmnopqrstuvwxyz''"

definition digits :: string where
  "digits = ''0123456789''"

text \<open>The whitespace that \<^verbatim>\<open>str.strip()\<close> removes: TAB, LF, VT, FF, CR, FS, GS, RS, US, space.\<close>

definition whitespace :: string where
  "whitespace = [CHR 0x09, CHR 0x0A, CHR 0x0B, CHR 0x0C, CHR 0x0D,
                 CHR 0x1C, CHR 0x1D, CHR 0x1E, CHR 0x1F, CHR '' '']"

definition is_upper :: "char \<Rightarrow> bool" where
  "is_upper c = (c \<in> set uppercase_letters)"

definition is_digit :: "char \<Rightarrow> bool" where
  "is_digit c = (c \<in> set digits)"

text \<open>\<^verbatim>\<open>\w\<close>: letters, digits and the underscore.\<close>

definition is_word :: "char \<Rightarrow> bool" where
  "is_word c = (c \<in> set (uppercase_letters @ lowercase_letters @ digits @ ''_''))"

definition is_space :: "char \<Rightarrow> bool" where
  "is_space c = (c \<in> set whitespace)"

definition upper_char :: "char \<Rightarrow> char" where
  "upper_char c =
     (case map_of (zip lowercase_letters uppercase_letters) c of None \<Rightarrow> c | Some u \<Rightarrow> u)"

definition upper :: "string \<Rightarrow> string" where
  "upper s = map upper_char s"

definition strip :: "string \<Rightarrow> string" where
  "strip s = rev (dropWhile is_space (rev (dropWhile is_space s)))"

subsection \<open>The regular expressions of \<^verbatim>\<open>REF_PATTERNS\<close>\<close>

text \<open>
  The two patterns are sequences of three kinds of item: the word boundary \<^verbatim>\<open>\b\<close>, a
  literal character, and a greedy repetition \<^verbatim>\<open>X{n,}\<close> of a character class.
  \<open>match_here\<close> is the backtracking matcher of \<^verbatim>\<open>re\<close> at one start position: a greedy
  repetition takes the longest run first and gives characters back one at a time while
  the rest of the pattern fails. The second argument is the character before the start
  position (\<open>None\<close> at the start of the text); the result is the matched text.
\<close>

datatype cls = Upper | Digit

datatype item = Bnd | Lit char | AtLeast nat cls

fun in_cls :: "cls \<Rightarrow> char \<Rightarrow> bool" where
  "in_cls Upper c = is_upper c"
| "in_cls Digit c = is_digit c"

fun word_before :: "char option \<Rightarrow> bool" where
  "word_before None = False"
| "word_before (Some c) = is_word c"

fun word_after :: "string \<Rightarrow> bool" where
  "word_after [] = False"
| "word_after (c # cs) = is_word c"

fun last_char :: "char option \<Rightarrow> string \<Rightarrow> char option" where
  "last_char prev [] = prev"
| "last_char prev (c # cs) = last_char (Some c) cs"

fun first_some :: "'a option list \<Rightarrow> 'a option" where
  "first_some [] = None"
| "first_some (None # xs) = first_some xs"
| "first_some (Some y # xs) = Some y"

fun match_here :: "item list \<Rightarrow> char option \<Rightarrow> string \<Rightarrow> string option" where
  "match_here [] prev s = Some []"
| "match_here (Bnd # p) prev s =
     (if word_before prev \<noteq> word_after s then match_here p prev s else None)"
| "match_here (Lit c # p) prev s =
     (case s of
        [] \<Rightarrow> None
      | x # xs \<Rightarrow> if x = c then map_option ((#) x) (match_here p (Some x) xs) else None)"
| "match_here (AtLeast n k # p) prev s =
     first_some
       (map (\<lambda>j. map_option ((@) (take j s))
                    (match_here p (last_char prev (take j s)) (drop j s)))
            (rev [n ..< Suc (length (takeWhile (in_cls k) s))]))"

text \<open>\<^verbatim>\<open>re.search\<close>: the first start position, from the left, at which the pattern matches.\<close>

fun search_from :: "item list \<Rightarrow> char option \<Rightarrow> string \<Rightarrow> string option" where
  "search_from p prev [] = match_here p prev []"
| "search_from p prev (x # xs) =
     (case match_here p prev (x # xs) of
        Some m \<Rightarrow> Some m
      | None \<Rightarrow> search_from p (Some x) xs)"

definition re_search :: "item list \<Rightarrow> string \<Rightarrow> string option" where
  "re_search p txt = search_from p None txt"

text \<open>\<^verbatim>\<open>REF_PATTERNS = [r'\b[A-Z]{2,}-\d{1,}\b', r'\b[A-Z]{2,}\d{2,}\b']\<close>\<close>

definition pattern_a :: "item list" where
  "pattern_a = [Bnd, AtLeast 2 Upper, Lit CHR ''-'', AtLeast 1 Digit, Bnd]"

definition pattern_b :: "item list" where
  "pattern_b = [Bnd, AtLeast 2 Upper, AtLeast 2 Digit, Bnd]"

definition REF_PATTERNS :: "item list list" where
  "REF_PATTERNS = [pattern_a, pattern_b]"

text \<open>The loop \<^verbatim>\<open>for p in REF_PATTERNS\<close> of \<^verbatim>\<open>extract_reference\<close>.\<close>

fun first_match :: "item list list \<Rightarrow> string \<Rightarrow> string" where
  "first_match [] txt = []"
| "first_match (p # ps) txt =
     (case re_search p txt of Some m \<Rightarrow> m | None \<Rightarrow> first_match ps txt)"

definition extract_reference :: "string \<Rightarrow> string" where
  "extract_reference text = (if text = [] then [] else first_match REF_PATTERNS (upper text))"

subsection \<open>Records and data frames\<close>

type_synonym date = "nat \<times> nat \<times> nat"

text \<open>A bank transaction after the type conversions of \<^verbatim>\<open>preprocess\<close>.\<close>

record txn =
  txn_id :: "string option"
  date :: "date option"
  amount :: "real option"
  description :: "string option"
  reference :: "string option"

text \<open>A bank row with the helper column \<^verbatim>\<open>_extracted_ref\<close>.\<close>

record bank_row = txn +
  extracted_ref :: string

record invoice =
  invoice_id :: "string option"
  customer :: "string option"
  inv_amount :: "real option"
  due_date :: "date option"
  inv_reference :: "string option"

text \<open>
  A data frame: its column names and its rows, each row with its index label.
  \<^verbatim>\<open>pd.DataFrame()\<close> has neither columns nor rows; \<^verbatim>\<open>df.empty\<close> holds when either axis
  has length zero.
\<close>

record 'r frame =
  columns :: "string list"
  rows :: "(nat \<times> 'r) list"

definition DataFrame :: "'r frame" where
  "DataFrame = \<lparr>columns = [], rows = []\<rparr>"

definition empty :: "'r frame \<Rightarrow> bool" where
  "empty df = (columns df = [] \<or> rows df = [])"

definition bank_columns :: "string list" where
  "bank_columns = [''txn_id'', ''date'', ''amount'', ''description'', ''reference'',
                   ''_extracted_ref'']"

definition inv_columns :: "string list" where
  "inv_columns = [''invoice_id'', ''customer'', ''amount'', ''due_date'', ''reference'']"

text \<open>\<^verbatim>\<open>df.loc[idx]\<close> for a list of labels of the index \<open>0 ..< length xs\<close>.\<close>

definition loc :: "string list \<Rightarrow> 'r list \<Rightarrow> nat list \<Rightarrow> 'r frame" where
  "loc cols xs idx = \<lparr>columns = cols, rows = map (\<lambda>i. (i, xs ! i)) idx\<rparr>"

subsection \<open>\<^verbatim>\<open>preprocess\<close>: the extracted reference\<close>

text \<open>\<^verbatim>\<open>series.fillna('').astype(str)\<close> on a text column.\<close>

fun fillna_str :: "string option \<Rightarrow> string" where
  "fillna_str None = []"
| "fillna_str (Some s) = s"

text \<open>
  The reference is extracted from the description; when that yields the empty string
  it is extracted from the reference column instead.
\<close>

definition add_extracted_ref :: "txn \<Rightarrow> bank_row" where
  "add_extracted_ref t =
     (let r = extract_reference (fillna_str (description t));
          e = (if r = [] then extract_reference (fillna_str (reference t)) else r)
      in \<lparr>txn_id = txn_id t, date = date t, amount = amount t,
          description = description t, reference = reference t, extracted_ref = e\<rparr>)"

definition preprocess :: "txn list \<Rightarrow> invoice list \<Rightarrow> bank_row list \<times> invoice list" where
  "preprocess bank_df inv_df = (map add_extracted_ref bank_df, inv_df)"

subsection \<open>\<^verbatim>\<open>match\<close>: the exact reference and amount pass\<close>

text \<open>
  A row of \<^verbatim>\<open>results\<close>. The program stores the merged dictionary of \<^verbatim>\<open>bank.loc[bi]\<close> and
  \<^verbatim>\<open>inv.loc[ii]\<close>, which the two indices determine; the model keeps the indices.
\<close>

record match_row =
  m_txn :: nat
  m_inv :: nat
  match_type :: string

record match_state =
  unmatched_txns_idx :: "nat set"
  unmatched_inv_idx :: "nat set"
  results :: "match_row list"

text \<open>
  The dictionary comprehension \<^verbatim>\<open>{str(r).strip().upper(): i for i, r in ... if pd.notna(r)}\<close>:
  entries are written in row order, a later entry replacing an earlier one with the
  same key.
\<close>

definition inv_by_ref :: "invoice list \<Rightarrow> (string \<rightharpoonup> nat)" where
  "inv_by_ref invs =
     foldl (\<lambda>m (i, r). case r of None \<Rightarrow> m | Some s \<Rightarrow> m(upper (strip s) \<mapsto> i))
           Map.empty (enumerate 0 (map inv_reference invs))"

text \<open>
  \<^verbatim>\<open>b_amt is not None and i_amt is not None and abs(b_amt - i_amt) < 0.05\<close>; a null
  amount is NaN, for which the comparison is false.
\<close>

fun amounts_close :: "real option \<Rightarrow> real option \<Rightarrow> bool" where
  "amounts_close (Some b) (Some i) = (\<bar>b - i\<bar> < 5 / 100)"
| "amounts_close b_amt i_amt = False"

text \<open>The body of the loop \<^verbatim>\<open>for bi in list(unmatched_txns_idx)\<close>.\<close>

definition match_step ::
  "bank_row list \<Rightarrow> invoice list \<Rightarrow> (string \<rightharpoonup> nat) \<Rightarrow> match_state \<Rightarrow> nat \<Rightarrow> match_state" where
  "match_step bank invs lookup st bi =
     (let ref = extracted_ref (bank ! bi) in
      case lookup ref of
        None \<Rightarrow> st
      | Some ii \<Rightarrow>
          if ii \<in> unmatched_inv_idx st then
            (let b_amt = amount (bank ! bi); i_amt = inv_amount (invs ! ii) in
             if amounts_close b_amt i_amt then
               st\<lparr>results := results st @ [\<lparr>m_txn = bi, m_inv = ii, match_type = ''exact_ref''\<rparr>],
                  unmatched_txns_idx := unmatched_txns_idx st - {bi},
                  unmatched_inv_idx := unmatched_inv_idx st - {ii}\<rparr>
             else st)
          else st)"

definition initial_state :: "bank_row list \<Rightarrow> invoice list \<Rightarrow> match_state" where
  "initial_state bank invs =
     \<lparr>unmatched_txns_idx = {0 ..< length bank}, unmatched_inv_idx = {0 ..< length invs},
      results = []\<rparr>"

definition match_loop ::
  "nat list \<Rightarrow> bank_row list \<Rightarrow> invoice list \<Rightarrow> match_state" where
  "match_loop order bank invs =
     foldl (match_step bank invs (inv_by_ref invs)) (initial_state bank invs) order"

text \<open>A partial-payment descriptor: customer, invoice id, total received.\<close>

type_synonym partial = "string \<times> string \<times> real"

text \<open>A finding is a data frame of bank rows or a Python list of descriptors.\<close>

datatype finding = Frame "bank_row frame" | PyList "partial list"

text \<open>The tuple that \<^verbatim>\<open>match\<close> returns.\<close>

record match_result =
  res_matches :: "match_row list"
  res_unmatched_txns :: "bank_row frame"
  res_unmatched_invs :: "invoice frame"
  res_findings :: "string \<rightharpoonup> finding"

text \<open>
  \<open>order\<close> is the order in which \<^verbatim>\<open>list(unmatched_txns_idx)\<close> enumerates the set of all
  transaction indices: some arrangement of \<open>0 ..< length bank_df\<close>.
\<close>

definition order_ok :: "nat list \<Rightarrow> 'a list \<Rightarrow> bool" where
  "order_ok order bank_df = (distinct order \<and> set order = {0 ..< length bank_df})"

definition match :: "nat list \<Rightarrow> txn list \<Rightarrow> invoice list \<Rightarrow> match_result" where
  "match order bank_df inv_df =
     (let (bank, invs) = preprocess bank_df inv_df;
          st = match_loop order bank invs;
          ut = unmatched_txns_idx st;
          ui = unmatched_inv_idx st
      in \<lparr>res_matches = results st,
          res_unmatched_txns =
            (if ut \<noteq> {} then loc bank_columns bank (sorted_list_of_set ut)
             else \<lparr>columns = bank_columns, rows = []\<rparr>),
          res_unmatched_invs =
            (if ui \<noteq> {} then loc inv_columns invs (sorted_list_of_set ui)
             else \<lparr>columns = inv_columns, rows = []\<rparr>),
          res_findings = [''duplicate_txn'' \<mapsto> Frame DataFrame, ''partials'' \<mapsto> PyList []]\<rparr>)"

subsection \<open>\<^verbatim>\<open>compute_findings\<close>: duplicates and high-value outliers\<close>

datatype py_error = KeyError

datatype cell = Null | Num real | Day date | Text string

fun text_cell :: "string option \<Rightarrow> cell" where
  "text_cell None = Null"
| "text_cell (Some s) = Text s"

fun num_cell :: "real option \<Rightarrow> cell" where
  "num_cell None = Null"
| "num_cell (Some x) = Num x"

fun day_cell :: "date option \<Rightarrow> cell" where
  "day_cell None = Null"
| "day_cell (Some d) = Day d"

text \<open>The cell of a bank row under a column name; a column without a field holds nulls.\<close>

definition cell_of :: "string \<Rightarrow> bank_row \<Rightarrow> cell" where
  "cell_of c r =
     (if c = ''txn_id'' then text_cell (txn_id r)
      else if c = ''date'' then day_cell (date r)
      else if c = ''amount'' then num_cell (amount r)
      else if c = ''description'' then text_cell (description r)
      else if c = ''reference'' then text_cell (reference r)
      else if c = ''_extracted_ref'' then Text (extracted_ref r)
      else Null)"

text \<open>
  \<^verbatim>\<open>df.duplicated(subset=..., keep=False)\<close>: a row is marked when the cells of the subset
  columns occur in an earlier or in a later row; nulls count as equal to each other.
  A name that is not a column raises \<^verbatim>\<open>KeyError\<close>.
\<close>

definition duplicated :: "string list \<Rightarrow> bank_row frame \<Rightarrow> py_error + bool list" where
  "duplicated cols df =
     (if set cols \<subseteq> set (columns df) then
        (let keys = map (\<lambda>(i, r). map (\<lambda>c. cell_of c r) cols) (rows df)
         in Inr (map (\<lambda>i. keys ! i \<in> set (take i keys) \<or> keys ! i \<in> set (drop (Suc i) keys))
                     [0 ..< length keys]))
      else Inl KeyError)"

text \<open>\<^verbatim>\<open>df[mask]\<close> for a boolean mask, and \<^verbatim>\<open>df.reset_index(drop=True)\<close>.\<close>

definition select :: "bool list \<Rightarrow> 'r frame \<Rightarrow> 'r frame" where
  "select msk df = df\<lparr>rows := map snd (filter fst (zip msk (rows df)))\<rparr>"

definition reset_index :: "'r frame \<Rightarrow> 'r frame" where
  "reset_index df = df\<lparr>rows := enumerate 0 (map snd (rows df))\<rparr>"

text \<open>\<^verbatim>\<open>df['amount']\<close>.\<close>

definition get_amount :: "bank_row frame \<Rightarrow> py_error + real option list" where
  "get_amount df =
     (if ''amount'' \<in> set (columns df) then Inr (map (\<lambda>(i, r). amount r) (rows df))
      else Inl KeyError)"

text \<open>
  \<^verbatim>\<open>Series.quantile(q)\<close> with the default linear interpolation: nulls are dropped, the
  rest sorted, and the value at the fractional position \<open>(n - 1) * q\<close> interpolated
  between its two neighbours. A series without a value gives NaN (\<open>None\<close>).
\<close>

definition quantile :: "real \<Rightarrow> real option list \<Rightarrow> real option" where
  "quantile q col =
     (let vs = sort [x. Some x \<leftarrow> col] in
      if vs = [] then None
      else
        (let h = real (length vs - 1) * q;
             lo = nat \<lfloor>h\<rfloor>;
             hi = min (lo + 1) (length vs - 1)
         in Some (vs ! lo + (h - real lo) * (vs ! hi - vs ! lo))))"

text \<open>\<^verbatim>\<open>series >= threshold\<close>: false wherever the cell or the threshold is NaN.\<close>

fun ge_cell :: "real option \<Rightarrow> real option \<Rightarrow> bool" where
  "ge_cell (Some x) (Some t) = (t \<le> x)"
| "ge_cell a t = False"

definition ge_mask :: "real option list \<Rightarrow> real option \<Rightarrow> bool list" where
  "ge_mask col threshold = map (\<lambda>a. ge_cell a threshold) col"

text \<open>Rule 1: duplicates (same amount and date).\<close>

definition rule_duplicates :: "bank_row frame \<Rightarrow> py_error + (string \<times> bank_row frame) list" where
  "rule_duplicates bank_unmatched =
     (if \<not> empty bank_unmatched \<and> {''amount'', ''date''} \<subseteq> set (columns bank_unmatched) then
        (case duplicated [''amount'', ''date''] bank_unmatched of
           Inl e \<Rightarrow> Inl e
         | Inr dup_mask \<Rightarrow>
             Inr [(''duplicate_txn'', reset_index (select dup_mask bank_unmatched))])
      else Inr [(''duplicate_txn'', DataFrame)])"

text \<open>Rule 2: high value unmatched. There is no \<^verbatim>\<open>else\<close>: the key is not written.\<close>

definition rule_high_value :: "bank_row frame \<Rightarrow> py_error + (string \<times> bank_row frame) list" where
  "rule_high_value bank_unmatched =
     (if \<not> empty bank_unmatched \<and> ''amount'' \<in> set (columns bank_unmatched) then
        (case get_amount bank_unmatched of
           Inl e \<Rightarrow> Inl e
         | Inr col \<Rightarrow>
             (let threshold = quantile (9 / 10) col in
              Inr [(''high_value_unmatched'',
                    reset_index (select (ge_mask col threshold) bank_unmatched))]))
      else Inr [])"

text \<open>
  The dictionary \<^verbatim>\<open>findings\<close> in insertion order, as \<^verbatim>\<open>strict_findings.items()\<close>
  enumerates it.
\<close>

definition compute_findings ::
  "match_row list \<Rightarrow> bank_row frame \<Rightarrow> invoice frame \<Rightarrow> py_error + (string \<times> bank_row frame) list" where
  "compute_findings matches bank_unmatched inv_unmatched =
     (case rule_duplicates bank_unmatched of
        Inl e \<Rightarrow> Inl e
      | Inr f1 \<Rightarrow>
          (case rule_high_value bank_unmatched of
             Inl e \<Rightarrow> Inl e
           | Inr f2 \<Rightarrow> Inr (f1 @ f2)))"

subsection \<open>Merging the findings, and reading them\<close>

text \<open>
  The body of \<^verbatim>\<open>for k, v in strict_findings.items()\<close>:
  \<^verbatim>\<open>
  existing = findings.get(k)
  if k not in findings: findings[k] = v
  elif isinstance(existing, pd.DataFrame) and existing.empty and not v.empty: findings[k] = v
  \<close>
\<close>

definition merge_step :: "(string \<rightharpoonup> finding) \<Rightarrow> string \<times> bank_row frame \<Rightarrow> (string \<rightharpoonup> finding)" where
  "merge_step findings kv =
     (let (k, v) = kv; existing = findings k in
      case existing of
        None \<Rightarrow> findings(k \<mapsto> Frame v)
      | Some (Frame e) \<Rightarrow> if empty e \<and> \<not> empty v then findings(k \<mapsto> Frame v) else findings
      | Some (PyList l) \<Rightarrow> findings)"

definition merge_findings ::
  "(string \<rightharpoonup> finding) \<Rightarrow> (string \<times> bank_row frame) list \<Rightarrow> (string \<rightharpoonup> finding)" where
  "merge_findings findings strict_findings = foldl merge_step findings strict_findings"


section \<open>Notions used in the statements\<close>

text \<open>
  The loop body accepts the candidate \<open>ii\<close> for the transaction \<open>bi\<close>: the lookup gives
  \<open>ii\<close>, the invoice is still in the unmatched pool, and the amounts are close.
\<close>

definition accepts :: "bank_row list \<Rightarrow> invoice list \<Rightarrow> (string \<rightharpoonup> nat) \<Rightarrow> match_state \<Rightarrow> nat \<Rightarrow> nat \<Rightarrow> bool" where
  "accepts bank invs lookup st bi ii =
     (lookup (extracted_ref (bank ! bi)) = Some ii \<and> ii \<in> unmatched_inv_idx st \<and>
      amounts_close (amount (bank ! bi)) (inv_amount (invs ! ii)))"

text \<open>The row that an accepted pair appends to \<^verbatim>\<open>results\<close>.\<close>

definition exact_row :: "nat \<Rightarrow> nat \<Rightarrow> match_row" where
  "exact_row bi ii = \<lparr>m_txn = bi, m_inv = ii, match_type = ''exact_ref''\<rparr>"

text \<open>
  The loop invariant of the matching pass: no transaction and no invoice is matched
  twice, and the unmatched pool and the matched indices split the index range.
\<close>

definition partitioned :: "nat \<Rightarrow> nat \<Rightarrow> match_state \<Rightarrow> bool" where
  "partitioned n m st =
     (distinct (map m_txn (results st)) \<and> distinct (map m_inv (results st)) \<and>
      unmatched_txns_idx st \<inter> set (map m_txn (results st)) = {} \<and>
      unmatched_txns_idx st \<union> set (map m_txn (results st)) = {0 ..< n} \<and>
      unmatched_inv_idx st \<inter> set (map m_inv (results st)) = {} \<and>
      unmatched_inv_idx st \<union> set (map m_inv (results st)) = {0 ..< m})"

text \<open>The key under which an invoice enters the lookup; \<open>None\<close> for a null reference.\<close>

definition normalized_ref :: "invoice \<Rightarrow> string option" where
  "normalized_ref x = map_option (\<lambda>s. upper (strip s)) (inv_reference x)"

subsection \<open>Example data\<close>

definition payment :: "real option \<Rightarrow> txn" where
  "payment a = \<lparr>txn_id = Some ''T1'', date = Some (2024, 1, 5), amount = a,
                 description = Some ''Payment ref ABC-123 received'', reference = None\<rparr>"

definition rent_due :: "real option \<Rightarrow> string option \<Rightarrow> invoice" where
  "rent_due a r = \<lparr>invoice_id = Some ''INV1'', customer = Some ''Thandi Nkosi'', inv_amount = a,
                    due_date = Some (2024, 1, 1), inv_reference = r\<rparr>"

definition two_payments :: "txn list" where
  "two_payments = [payment (Some 100), payment (Some 100)]"

definition one_invoice :: "invoice list" where
  "one_invoice = [rent_due (Some 100) (Some ''ABC-123'')]"

definition two_invoices :: "invoice list" where
  "two_invoices = [rent_due (Some 100) (Some '' abc-123''), rent_due (Some 100) (Some ''ABC-123 '')]"

text \<open>The key of the duplicate rule: the cells of the columns \<^verbatim>\<open>amount\<close> and \<^verbatim>\<open>date\<close>.\<close>

definition dup_key :: "bank_row \<Rightarrow> real option \<times> date option" where
  "dup_key r = (amount r, date r)"



definition cash :: "real option \<Rightarrow> date option \<Rightarrow> txn" where
  "cash a d = \<lparr>txn_id = None, date = d, amount = a, description = Some ''cash deposit'',
               reference = None\<rparr>"

definition frame_of :: "txn list \<Rightarrow> bank_row frame" where
  "frame_of ts = loc bank_columns (map add_extracted_ref ts) [0 ..< length ts]"

definition one_row :: "bank_row frame" where
  "one_row = frame_of [cash (Some 500) (Some (2024, 1, 5))]"

definition two_rows :: "bank_row frame" where
  "two_rows = frame_of [cash (Some 500) (Some (2024, 1, 5)), cash (Some 500) (Some (2024, 1, 5))]"

definition three_txns :: "bank_row frame" where
  "three_txns = frame_of [cash (Some 500) (Some (2024, 1, 5)), cash (Some 500) (Some (2024, 1, 5)),
                          cash (Some 750) (Some (2024, 1, 5))]"

definition ten_amounts :: "bank_row frame" where
  "ten_amounts = frame_of (map (\<lambda>a. cash (Some a) (Some (2024, 1, 5)))
                               [10, 20, 30, 40, 50, 60, 70, 80, 90, 100])"

definition null_pair :: "bank_row frame" where
  "null_pair = frame_of [cash None (Some (2024, 1, 5)), cash None (Some (2024, 1, 5)),
                         cash (Some 5) (Some (2024, 1, 5))]"

subsection \<open>Reference codes\<close>

text \<open>
  The two shapes of a reference code: (a) at least two uppercase letters, a hyphen and
  at least one digit; (b) at least two uppercase letters directly followed by at least
  two digits.
\<close>

definition shape_a :: "string \<Rightarrow> bool" where
  "shape_a w = (\<exists>ls ds. w = ls @ CHR ''-'' # ds \<and> 2 \<le> length ls \<and> (\<forall>c \<in> set ls. is_upper c) \<and>
                  1 \<le> length ds \<and> (\<forall>c \<in> set ds. is_digit c))"

definition shape_b :: "string \<Rightarrow> bool" where
  "shape_b w = (\<exists>ls ds. w = ls @ ds \<and> 2 \<le> length ls \<and> (\<forall>c \<in> set ls. is_upper c) \<and>
                  2 \<le> length ds \<and> (\<forall>c \<in> set ds. is_digit c))"

text \<open>
  \<open>w\<close> is the substring of \<open>txt\<close> that starts at position \<open>i\<close>; and it occurs there as a
  word of its own: the character before it, if any, and the character after it, if
  any, are not word characters.
\<close>

definition substring_at :: "string \<Rightarrow> string \<Rightarrow> nat \<Rightarrow> bool" where
  "substring_at w txt i = (i + length w \<le> length txt \<and> take (length w) (drop i txt) = w)"

definition occurs_at :: "string \<Rightarrow> string \<Rightarrow> nat \<Rightarrow> bool" where
  "occurs_at w txt i =
     (substring_at w txt i \<and> \<not> word_before (last_char None (take i txt)) \<and>
      \<not> word_after (drop (i + length w) txt))"

section \<open>Properties\<close>

subsection \<open>Result ordering\<close>

text \<open>
  Claim C9. The unmatched transactions and the unmatched invoices that \<^verbatim>\<open>match\<close> returns
  are in ascending order of their original row index, for every pair of data sets (and
  whatever the order in which the loop visited the transactions). The order is strict:
  no index occurs twice.
\<close>

theorem unmatched_sorted_by_index:
  "sorted_wrt (<) (map fst (rows (res_unmatched_txns (match order bank_df inv_df)))) \<and>
   sorted_wrt (<) (map fst (rows (res_unmatched_invs (match order bank_df inv_df))))"
  by (simp add: match_def preprocess_def Let_def loc_def comp_def)

subsection \<open>The loop body and its invariant\<close>

lemma match_step_accept:
  "accepts bank invs lookup st bi ii \<Longrightarrow>
   match_step bank invs lookup st bi =
     st\<lparr>results := results st @ [exact_row bi ii],
        unmatched_txns_idx := unmatched_txns_idx st - {bi},
        unmatched_inv_idx := unmatched_inv_idx st - {ii}\<rparr>"
  by (simp add: match_step_def accepts_def exact_row_def Let_def)

lemma match_step_reject:
  "\<not> (\<exists>ii. accepts bank invs lookup st bi ii) \<Longrightarrow> match_step bank invs lookup st bi = st"
  by (auto simp: match_step_def accepts_def Let_def split: option.splits)

lemma partitioned_initial: "partitioned (length bank) (length invs) (initial_state bank invs)"
  by (simp add: partitioned_def initial_state_def)

lemma partitioned_step:
  assumes "partitioned n m st" and "bi \<in> unmatched_txns_idx st"
  shows "partitioned n m (match_step bank invs lookup st bi)"
proof (cases "\<exists>ii. accepts bank invs lookup st bi ii")
  case False
  then show ?thesis using assms by (simp add: match_step_reject)
next
  case True
  then obtain ii where acc: "accepts bank invs lookup st bi ii" by blast
  then have ii: "ii \<in> unmatched_inv_idx st" by (simp add: accepts_def)
  let ?T = "set (map m_txn (results st))" and ?I = "set (map m_inv (results st))"
  let ?U = "unmatched_txns_idx st" and ?V = "unmatched_inv_idx st"
  from assms(1) have dT: "distinct (map m_txn (results st))"
    and dI: "distinct (map m_inv (results st))"
    and UT: "?U \<inter> ?T = {}" and UTn: "?U \<union> ?T = {0 ..< n}"
    and VI: "?V \<inter> ?I = {}" and VIm: "?V \<union> ?I = {0 ..< m}"
    by (simp_all add: partitioned_def)
  have bT: "bi \<notin> ?T" using UT assms(2) by blast
  have iI: "ii \<notin> ?I" using VI ii by blast
  have 1: "(?U - {bi}) \<inter> (?T \<union> {bi}) = {}" using UT by blast
  have 2: "(?U - {bi}) \<union> (?T \<union> {bi}) = {0 ..< n}" using UTn assms(2) by blast
  have 3: "(?V - {ii}) \<inter> (?I \<union> {ii}) = {}" using VI by blast
  have 4: "(?V - {ii}) \<union> (?I \<union> {ii}) = {0 ..< m}" using VIm ii by blast
  show ?thesis
    unfolding match_step_accept [OF acc] partitioned_def
    using dT dI bT iI 1 2 3 4 by (simp add: exact_row_def)
qed

lemma unmatched_txns_step:
  "unmatched_txns_idx st - {bi} \<subseteq> unmatched_txns_idx (match_step bank invs lookup st bi)"
  by (cases "\<exists>ii. accepts bank invs lookup st bi ii")
     (auto simp: match_step_accept match_step_reject)

lemma partitioned_foldl:
  "partitioned n m st \<Longrightarrow> distinct xs \<Longrightarrow> set xs \<subseteq> unmatched_txns_idx st \<Longrightarrow>
   partitioned n m (foldl (match_step bank invs lookup) st xs)"
proof (induction xs arbitrary: st)
  case Nil
  then show ?case by simp
next
  case (Cons x xs)
  have "partitioned n m (match_step bank invs lookup st x)"
    using Cons.prems by (simp add: partitioned_step)
  moreover have "set xs \<subseteq> unmatched_txns_idx (match_step bank invs lookup st x)"
    using Cons.prems unmatched_txns_step [of st x bank invs lookup] by auto
  ultimately show ?case using Cons by simp
qed

lemma partitioned_match_loop:
  "order_ok order bank \<Longrightarrow> partitioned (length bank) (length invs) (match_loop order bank invs)"
  unfolding match_loop_def
proof (rule partitioned_foldl)
  show "partitioned (length bank) (length invs) (initial_state bank invs)"
    by (rule partitioned_initial)
qed (simp_all add: order_ok_def initial_state_def)


lemma match_step_results:
  "results (match_step bank invs lookup st bi) = results st \<or>
   (\<exists>ii. accepts bank invs lookup st bi ii \<and>
         results (match_step bank invs lookup st bi) = results st @ [exact_row bi ii])"
  by (cases "\<exists>ii. accepts bank invs lookup st bi ii")
     (auto simp: match_step_accept match_step_reject)


lemma results_foldl_origin:
  "r \<in> set (results (foldl (match_step bank invs lookup) st xs)) \<Longrightarrow>
   r \<in> set (results st) \<or>
   (\<exists>b \<in> set xs. \<exists>ii. lookup (extracted_ref (bank ! b)) = Some ii \<and>
      amounts_close (amount (bank ! b)) (inv_amount (invs ! ii)) \<and> r = exact_row b ii)"
proof (induction xs arbitrary: st)
  case Nil
  then show ?case by simp
next
  case (Cons x xs)
  from Cons.prems have "r \<in> set (results (foldl (match_step bank invs lookup) (match_step bank invs lookup st x) xs))"
    by simp
  from Cons.IH [OF this] show ?case
  proof
    assume "r \<in> set (results (match_step bank invs lookup st x))"
    then show ?thesis
      using match_step_results [of bank invs lookup st x]
      by (auto simp: accepts_def)
  next
    assume "\<exists>b\<in>set xs. \<exists>ii. lookup (extracted_ref (bank ! b)) = Some ii \<and>
      amounts_close (amount (bank ! b)) (inv_amount (invs ! ii)) \<and> r = exact_row b ii"
    then show ?thesis by auto
  qed
qed



lemma partitioned_finite:
  "partitioned n m st \<Longrightarrow> finite (unmatched_txns_idx st) \<and> finite (unmatched_inv_idx st)"
  unfolding partitioned_def
  by (metis finite_Un finite_atLeastLessThan)

subsection \<open>Partition of the rows\<close>

text \<open>
  Claim C3. After \<^verbatim>\<open>match\<close> has run, every transaction index is either the transaction
  of a match or the index of an unmatched transaction row, never both, and the same
  holds for the invoices; no transaction and no invoice occurs in two matches, no row
  is listed twice among the unmatched, and every unmatched row is the row of the input
  at its index.
\<close>

theorem match_partition:
  assumes "order_ok order bank_df"
  shows "(let res = match order bank_df inv_df;
              mt = map m_txn (res_matches res); ut = map fst (rows (res_unmatched_txns res));
              mi = map m_inv (res_matches res); ui = map fst (rows (res_unmatched_invs res))
          in distinct mt \<and> distinct ut \<and> set mt \<inter> set ut = {} \<and>
             set mt \<union> set ut = {0 ..< length bank_df} \<and>
             distinct mi \<and> distinct ui \<and> set mi \<inter> set ui = {} \<and>
             set mi \<union> set ui = {0 ..< length inv_df} \<and>
             map snd (rows (res_unmatched_txns res)) = map (\<lambda>i. add_extracted_ref (bank_df ! i)) ut \<and>
             map snd (rows (res_unmatched_invs res)) = map (\<lambda>i. inv_df ! i) ui)"
proof -
  let ?bank = "map add_extracted_ref bank_df"
  let ?st = "match_loop order ?bank inv_df"
  have ok: "order_ok order ?bank" using assms by (simp add: order_ok_def)
  have P: "partitioned (length bank_df) (length inv_df) ?st"
    using partitioned_match_loop [OF ok, of inv_df] by simp
  have fin: "finite (unmatched_txns_idx ?st)" "finite (unmatched_inv_idx ?st)"
    using partitioned_finite [OF P] by simp_all
  have ut: "map fst (rows (res_unmatched_txns (match order bank_df inv_df))) =
            sorted_list_of_set (unmatched_txns_idx ?st)"
    by (simp add: match_def preprocess_def Let_def loc_def comp_def)
  have ui: "map fst (rows (res_unmatched_invs (match order bank_df inv_df))) =
            sorted_list_of_set (unmatched_inv_idx ?st)"
    by (simp add: match_def preprocess_def Let_def loc_def comp_def)
  have ms: "res_matches (match order bank_df inv_df) = results ?st"
    by (simp add: match_def preprocess_def Let_def)
  have sub: "unmatched_txns_idx ?st \<subseteq> {0 ..< length bank_df}"
    using P by (auto simp: partitioned_def)
  have rt: "map snd (rows (res_unmatched_txns (match order bank_df inv_df))) =
            map (\<lambda>i. add_extracted_ref (bank_df ! i)) (sorted_list_of_set (unmatched_txns_idx ?st))"
    using sub fin by (auto simp: match_def preprocess_def Let_def loc_def comp_def)
  have ri: "map snd (rows (res_unmatched_invs (match order bank_df inv_df))) =
            map (\<lambda>i. inv_df ! i) (sorted_list_of_set (unmatched_inv_idx ?st))"
    by (simp add: match_def preprocess_def Let_def loc_def comp_def)
  show ?thesis
    unfolding Let_def ut ui ms rt ri
    using P fin by (simp add: partitioned_def Int_commute Un_commute)
qed

theorem match_partition_witness:
  "order_ok [1, 0] two_payments \<and>
   (let res = match [1, 0] two_payments one_invoice;
        mt = map m_txn (res_matches res); ut = map fst (rows (res_unmatched_txns res));
        mi = map m_inv (res_matches res); ui = map fst (rows (res_unmatched_invs res))
    in distinct mt \<and> distinct ut \<and> set mt \<inter> set ut = {} \<and>
       set mt \<union> set ut = {0 ..< length two_payments} \<and>
       distinct mi \<and> distinct ui \<and> set mi \<inter> set ui = {} \<and>
       set mi \<union> set ui = {0 ..< length one_invoice} \<and>
       map snd (rows (res_unmatched_txns res)) = map (\<lambda>i. add_extracted_ref (two_payments ! i)) ut \<and>
       map snd (rows (res_unmatched_invs res)) = map (\<lambda>i. one_invoice ! i) ui)"
proof -
  have h: "order_ok [1, 0] two_payments"
    by code_simp
  from h match_partition [OF h, of one_invoice] show ?thesis
    by (rule conjI)
qed

text \<open>In that run the second transaction is visited first and takes the only invoice.\<close>

lemma match_partition_example:
  "(let res = match [1, 0] two_payments one_invoice
    in map m_txn (res_matches res) = [1] \<and> map fst (rows (res_unmatched_txns res)) = [0] \<and>
       map m_inv (res_matches res) = [0] \<and> map fst (rows (res_unmatched_invs res)) = [])"
  by code_simp

subsection \<open>Acceptance of a candidate invoice\<close>


lemma add_extracted_ref_amount [simp]: "amount (add_extracted_ref t) = amount t"
  by (simp add: add_extracted_ref_def Let_def)



text \<open>
  The tolerance at its boundary, under identical references: a difference of 0.049 is
  accepted, a difference of exactly 0.05 is not, and a null amount on either side is
  never accepted. The amounts are the parsed values; the examples take the invoice
  amount 0, for which the difference computed in floating point is the transaction
  amount itself.
\<close>

lemma tolerance_inside:
  "res_matches (match [0] [payment (Some (49 / 1000))] [rent_due (Some 0) (Some ''ABC-123'')]) =
     [\<lparr>m_txn = 0, m_inv = 0, match_type = ''exact_ref''\<rparr>]"
  by code_simp

lemma tolerance_boundary:
  "res_matches (match [0] [payment (Some (5 / 100))] [rent_due (Some 0) (Some ''ABC-123'')]) = []"
  by code_simp

lemma null_amounts_never_match:
  "res_matches (match [0] [payment None] one_invoice) = [] \<and>
   res_matches (match [0] [payment (Some 100)] [rent_due None (Some ''ABC-123'')]) = [] \<and>
   res_matches (match [0] [payment None] [rent_due None (Some ''ABC-123'')]) = []"
  by code_simp

subsection \<open>The invoice lookup\<close>

lemma inv_by_ref_Nil: "inv_by_ref [] = Map.empty"
  by (simp add: inv_by_ref_def)

lemma inv_by_ref_snoc:
  "inv_by_ref (invs @ [x]) =
     (case inv_reference x of
        None \<Rightarrow> inv_by_ref invs
      | Some s \<Rightarrow> (inv_by_ref invs)(upper (strip s) \<mapsto> length invs))"
  by (simp add: inv_by_ref_def enumerate_append_eq split: option.splits)

lemma inv_by_ref_last:
  "inv_by_ref invs k = Some i \<longleftrightarrow>
     i < length invs \<and> normalized_ref (invs ! i) = Some k \<and>
     (\<forall>j. i < j \<and> j < length invs \<longrightarrow> normalized_ref (invs ! j) \<noteq> Some k)"
proof (induction invs arbitrary: i rule: rev_induct)
  case Nil
  then show ?case by (simp add: inv_by_ref_Nil)
next
  case (snoc x xs)
  let ?n = "length xs"
  show ?case
  proof (cases "normalized_ref x = Some k")
    case True
    then have "inv_by_ref (xs @ [x]) k = Some ?n"
      by (auto simp: inv_by_ref_snoc normalized_ref_def split: option.splits)
    moreover have "(i < length (xs @ [x]) \<and> normalized_ref ((xs @ [x]) ! i) = Some k \<and>
        (\<forall>j. i < j \<and> j < length (xs @ [x]) \<longrightarrow> normalized_ref ((xs @ [x]) ! j) \<noteq> Some k)) \<longleftrightarrow> i = ?n"
    proof
      assume a: "i < length (xs @ [x]) \<and> normalized_ref ((xs @ [x]) ! i) = Some k \<and>
        (\<forall>j. i < j \<and> j < length (xs @ [x]) \<longrightarrow> normalized_ref ((xs @ [x]) ! j) \<noteq> Some k)"
      show "i = ?n"
      proof (rule ccontr)
        assume "i \<noteq> ?n"
        with a have i: "i < ?n" by simp
        from a have "\<forall>j. i < j \<and> j < length (xs @ [x]) \<longrightarrow>
            normalized_ref ((xs @ [x]) ! j) \<noteq> Some k" by blast
        then have "i < ?n \<and> ?n < length (xs @ [x]) \<longrightarrow>
            normalized_ref ((xs @ [x]) ! ?n) \<noteq> Some k" by (rule spec)
        with i True show False by simp
      qed
    next
      assume "i = ?n"
      with True show "i < length (xs @ [x]) \<and> normalized_ref ((xs @ [x]) ! i) = Some k \<and>
        (\<forall>j. i < j \<and> j < length (xs @ [x]) \<longrightarrow> normalized_ref ((xs @ [x]) ! j) \<noteq> Some k)"
        by auto
    qed
    ultimately show ?thesis by auto
  next
    case False
    then have e: "inv_by_ref (xs @ [x]) k = inv_by_ref xs k"
      by (auto simp: inv_by_ref_snoc normalized_ref_def split: option.splits)
    have "(i < length (xs @ [x]) \<and> normalized_ref ((xs @ [x]) ! i) = Some k \<and>
        (\<forall>j. i < j \<and> j < length (xs @ [x]) \<longrightarrow> normalized_ref ((xs @ [x]) ! j) \<noteq> Some k)) \<longleftrightarrow>
        (i < ?n \<and> normalized_ref (xs ! i) = Some k \<and>
        (\<forall>j. i < j \<and> j < ?n \<longrightarrow> normalized_ref (xs ! j) \<noteq> Some k))" (is "?A \<longleftrightarrow> ?B")
    proof
      assume a: ?A
      have "i \<noteq> ?n" using a False by auto
      with a have i: "i < ?n" by simp
      have "\<forall>j. i < j \<and> j < ?n \<longrightarrow> normalized_ref (xs ! j) \<noteq> Some k"
      proof (intro allI impI)
        fix j assume j: "i < j \<and> j < ?n"
        with a have "normalized_ref ((xs @ [x]) ! j) \<noteq> Some k" by simp
        with j show "normalized_ref (xs ! j) \<noteq> Some k" by (simp add: nth_append)
      qed
      with a i show ?B by (simp add: nth_append)
    next
      assume b: ?B
      have "\<forall>j. i < j \<and> j < length (xs @ [x]) \<longrightarrow> normalized_ref ((xs @ [x]) ! j) \<noteq> Some k"
      proof (intro allI impI)
        fix j assume j: "i < j \<and> j < length (xs @ [x])"
        show "normalized_ref ((xs @ [x]) ! j) \<noteq> Some k"
        proof (cases "j = ?n")
          case True
          then show ?thesis using False by simp
        next
          case False
          with j have "j < ?n" by simp
          with b j show ?thesis by (simp add: nth_append)
        qed
      qed
      with b show ?A by (simp add: nth_append)
    qed
    with e snoc.IH [of i] show ?thesis by simp
  qed
qed

lemma inv_by_ref_None:
  "inv_by_ref invs k = None \<longleftrightarrow> (\<forall>j < length invs. normalized_ref (invs ! j) \<noteq> Some k)"
proof (induction invs rule: rev_induct)
  case Nil
  then show ?case by (simp add: inv_by_ref_Nil)
next
  case (snoc x xs)
  show ?case
  proof (cases "normalized_ref x = Some k")
    case True
    then have "inv_by_ref (xs @ [x]) k = Some (length xs)"
      by (auto simp: inv_by_ref_snoc normalized_ref_def split: option.splits)
    moreover have "\<not> (\<forall>j < length (xs @ [x]). normalized_ref ((xs @ [x]) ! j) \<noteq> Some k)"
      using True by (auto intro: exI [of _ "length xs"])
    ultimately show ?thesis by simp
  next
    case False
    then have e: "inv_by_ref (xs @ [x]) k = inv_by_ref xs k"
      by (auto simp: inv_by_ref_snoc normalized_ref_def split: option.splits)
    have "(\<forall>j < length (xs @ [x]). normalized_ref ((xs @ [x]) ! j) \<noteq> Some k) \<longleftrightarrow>
          (\<forall>j < length xs. normalized_ref (xs ! j) \<noteq> Some k)"
      using False by (auto simp: nth_append less_Suc_eq)
    with e snoc.IH show ?thesis by simp
  qed
qed

text \<open>
  Claim C8. The lookup built by \<^verbatim>\<open>match\<close> maps a key \<open>k\<close> to the invoice \<open>i\<close> exactly
  when the reference of \<open>i\<close>, trimmed and uppercased, is \<open>k\<close> and no later invoice has
  that normalized reference (last one wins); invoices with a null reference never
  enter it, so a key that no non-null reference normalizes to is absent; and in every
  run the invoice of a match is the last of the invoices that share its normalized
  reference.
\<close>

theorem lookup_last_one_wins:
  "(inv_by_ref inv_df k = Some i \<longleftrightarrow>
      i < length inv_df \<and> normalized_ref (inv_df ! i) = Some k \<and>
      (\<forall>j. i < j \<and> j < length inv_df \<longrightarrow> normalized_ref (inv_df ! j) \<noteq> Some k)) \<and>
   (inv_by_ref inv_df k = None \<longleftrightarrow>
      (\<forall>j < length inv_df. normalized_ref (inv_df ! j) \<noteq> Some k)) \<and>
   (\<forall>r \<in> set (res_matches (match order bank_df inv_df)). \<forall>j < length inv_df.
      normalized_ref (inv_df ! j) = normalized_ref (inv_df ! m_inv r) \<longrightarrow> j \<le> m_inv r)"
proof -
  let ?bank = "map add_extracted_ref bank_df"
  have "j \<le> m_inv r"
    if r: "r \<in> set (res_matches (match order bank_df inv_df))" and j: "j < length inv_df"
      and e: "normalized_ref (inv_df ! j) = normalized_ref (inv_df ! m_inv r)" for r j
  proof -
    from r have "r \<in> set (results (foldl (match_step ?bank inv_df (inv_by_ref inv_df))
                                     (initial_state ?bank inv_df) order))"
      by (simp add: match_def preprocess_def Let_def match_loop_def)
    from results_foldl_origin [OF this] obtain b ii where
      "inv_by_ref inv_df (extracted_ref (?bank ! b)) = Some ii" and "r = exact_row b ii"
      by (auto simp: initial_state_def)
    then have L: "inv_by_ref inv_df (extracted_ref (?bank ! b)) = Some (m_inv r)"
      by (simp add: exact_row_def)
    from L [unfolded inv_by_ref_last] e j show ?thesis
      by (metis not_le_imp_less)
  qed
  then show ?thesis using inv_by_ref_last [of inv_df k i] inv_by_ref_None [of inv_df k] by blast
qed

theorem lookup_last_one_wins_witness:
  "normalized_ref (two_invoices ! 0) = Some ''ABC-123'' \<and>
   normalized_ref (two_invoices ! 1) = Some ''ABC-123'' \<and>
   inv_by_ref two_invoices ''ABC-123'' = Some 1 \<and>
   inv_by_ref two_invoices ''ABC-123'' \<noteq> Some 0"
proof -
  have n0: "normalized_ref (two_invoices ! 0) = Some ''ABC-123''"
    by code_simp
  have n1: "normalized_ref (two_invoices ! 1) = Some ''ABC-123''"
    by code_simp
  have len: "length two_invoices = 2"
    by (simp add: two_invoices_def)
  have last: "\<forall>j. 1 < j \<and> j < length two_invoices \<longrightarrow>
                normalized_ref (two_invoices ! j) \<noteq> Some ''ABC-123''"
    using len by auto
  from lookup_last_one_wins [of two_invoices "''ABC-123''" 1 "[]" "[]"] n1 len last
  have "inv_by_ref two_invoices ''ABC-123'' = Some 1"
    by simp
  with n0 n1 show ?thesis
    by simp
qed

text \<open>A payment carrying the shared reference is paired with the second invoice.\<close>

lemma last_invoice_is_matched:
  "res_matches (match [0] [payment (Some 100)] two_invoices) =
     [\<lparr>m_txn = 0, m_inv = 1, match_type = ''exact_ref''\<rparr>]"
  by code_simp

subsection \<open>The duplicate mask\<close>

lemma num_cell_inj: "num_cell a = num_cell b \<longleftrightarrow> a = b"
  by (cases a; cases b) simp_all

lemma day_cell_inj: "day_cell a = day_cell b \<longleftrightarrow> a = b"
  by (cases a; cases b) simp_all

lemma subset_key_eq:
  "map (\<lambda>c. cell_of c r) [''amount'', ''date''] = map (\<lambda>c. cell_of c r') [''amount'', ''date''] \<longleftrightarrow>
   dup_key r = dup_key r'"
  by (simp add: cell_of_def dup_key_def num_cell_inj day_cell_inj)

lemma count_list_split:
  "i < length ks \<Longrightarrow>
   count_list ks (ks ! i) = count_list (take i ks) (ks ! i) + 1 + count_list (drop (Suc i) ks) (ks ! i)"
proof -
  assume i: "i < length ks"
  have "count_list ks (ks ! i) = count_list (take i ks @ ks ! i # drop (Suc i) ks) (ks ! i)"
    using id_take_nth_drop [OF i] by simp
  then show ?thesis by simp
qed

lemma seen_elsewhere_iff:
  assumes "i < length ks"
  shows "(ks ! i \<in> set (take i ks) \<or> ks ! i \<in> set (drop (Suc i) ks)) \<longleftrightarrow> 1 < count_list ks (ks ! i)"
proof -
  have a: "ks ! i \<in> set (take i ks) \<longleftrightarrow> 0 < count_list (take i ks) (ks ! i)"
    using count_list_0_iff [of "take i ks" "ks ! i"] by auto
  have b: "ks ! i \<in> set (drop (Suc i) ks) \<longleftrightarrow> 0 < count_list (drop (Suc i) ks) (ks ! i)"
    using count_list_0_iff [of "drop (Suc i) ks" "ks ! i"] by auto
  show ?thesis unfolding a b count_list_split [OF assms] by auto
qed

lemma mask_by_count:
  "map (\<lambda>i. ks ! i \<in> set (take i ks) \<or> ks ! i \<in> set (drop (Suc i) ks)) [0 ..< length ks] =
   map (\<lambda>k. 1 < count_list ks k) ks"
  by (rule nth_equalityI) (simp_all add: seen_elsewhere_iff)

lemma select_by_predicate:
  "map snd (filter fst (zip (map g xs) xs)) = filter g xs"
  by (induction xs) simp_all

lemma count_list_map_inj:
  assumes "\<And>x y. f x = f y \<longleftrightarrow> g x = g y"
  shows "count_list (map f xs) (f x) = count_list (map g xs) (g x)"
  using assms by (induction xs) auto

lemma duplicated_amount_date:
  assumes "''amount'' \<in> set (columns df)" and "''date'' \<in> set (columns df)"
  shows "duplicated [''amount'', ''date''] df =
         Inr (map (\<lambda>x. 1 < count_list (map (\<lambda>x. dup_key (snd x)) (rows df)) (dup_key (snd x))) (rows df))"
proof -
  let ?key = "\<lambda>x :: nat \<times> bank_row. [cell_of ''amount'' (snd x), cell_of ''date'' (snd x)]"
  let ?dk = "\<lambda>x :: nat \<times> bank_row. dup_key (snd x)"
  let ?ks = "map ?key (rows df)"
  have e: "count_list (map ?key (rows df)) (?key x) = count_list (map ?dk (rows df)) (?dk x)" for x
  proof (rule count_list_map_inj)
    fix x y :: "nat \<times> bank_row"
    show "?key x = ?key y \<longleftrightarrow> ?dk x = ?dk y"
      by (simp add: cell_of_def dup_key_def num_cell_inj day_cell_inj)
  qed
  have d: "duplicated [''amount'', ''date''] df =
           Inr (map (\<lambda>i. ?ks ! i \<in> set (take i ?ks) \<or> ?ks ! i \<in> set (drop (Suc i) ?ks))
                    [0 ..< length ?ks])"
    using assms by (simp add: duplicated_def Let_def split_def)
  have m: "map (\<lambda>k. 1 < count_list ?ks k) ?ks = map (\<lambda>x. 1 < count_list ?ks (?key x)) (rows df)"
    by (simp only: map_map comp_def)
  have "map (\<lambda>x. 1 < count_list ?ks (?key x)) (rows df) =
        map (\<lambda>x. 1 < count_list (map ?dk (rows df)) (?dk x)) (rows df)"
    by (simp only: e)
  with d m show ?thesis by (simp only: mask_by_count)
qed


lemma ge_cell_iff: "ge_cell a t \<longleftrightarrow> (\<exists>x y. a = Some x \<and> t = Some y \<and> y \<le> x)"
  by (cases a; cases t) simp_all

lemma rows_reset_select:
  "map snd (rows (reset_index (select (map g (rows df)) df))) = filter (\<lambda>r. g' r) (map snd (rows df))"
  if "\<And>x. g x = g' (snd x)"
proof -
  have "map snd (rows (reset_index (select (map g (rows df)) df))) = map snd (filter g (rows df))"
    by (simp add: reset_index_def select_def map_snd_enumerate select_by_predicate)
  also have "\<dots> = filter g' (map snd (rows df))"
  proof -
    have "g = (\<lambda>x. g' (snd x))" using that by (rule ext)
    then show ?thesis by (simp add: filter_map comp_def)
  qed
  finally show ?thesis .
qed

lemma index_reset: "map fst (rows (reset_index df)) = [0 ..< length (rows (reset_index df))]"
  by (simp add: reset_index_def)

lemma columns_nonempty: "c \<in> set (columns df) \<Longrightarrow> empty df \<longleftrightarrow> rows df = []"
  by (auto simp: empty_def)

lemma rule_duplicates_present:
  assumes "''amount'' \<in> set (columns bu)" and "''date'' \<in> set (columns bu)"
  shows "\<exists>dup. rule_duplicates bu = Inr [(''duplicate_txn'', dup)] \<and>
           map snd (rows dup) =
             filter (\<lambda>r. 1 < count_list (map dup_key (map snd (rows bu))) (dup_key r)) (map snd (rows bu)) \<and>
           map fst (rows dup) = [0 ..< length (rows dup)]"
proof (cases "rows bu = []")
  case True
  then show ?thesis by (simp add: rule_duplicates_def empty_def DataFrame_def)
next
  case False
  let ?g = "\<lambda>x :: nat \<times> bank_row. 1 < count_list (map (\<lambda>x. dup_key (snd x)) (rows bu)) (dup_key (snd x))"
  let ?dup = "reset_index (select (map ?g (rows bu)) bu)"
  have "rule_duplicates bu = Inr [(''duplicate_txn'', ?dup)]"
    using False assms columns_nonempty [OF assms(1)]
    by (simp add: rule_duplicates_def duplicated_amount_date)
  moreover have "map snd (rows ?dup) =
      filter (\<lambda>r. 1 < count_list (map dup_key (map snd (rows bu))) (dup_key r)) (map snd (rows bu))"
    by (rule rows_reset_select) (simp add: comp_def)
  moreover have "map fst (rows ?dup) = [0 ..< length (rows ?dup)]"
    by (rule index_reset)
  ultimately show ?thesis by blast
qed

lemma rule_duplicates_total: "\<exists>dup. rule_duplicates bu = Inr [(''duplicate_txn'', dup)]"
proof (cases "\<not> empty bu \<and> {''amount'', ''date''} \<subseteq> set (columns bu)")
  case True
  then show ?thesis using rule_duplicates_present [of bu] by auto
next
  case False
  then show ?thesis by (auto simp: rule_duplicates_def)
qed


lemma rule_high_value_present:
  assumes "''amount'' \<in> set (columns bu)" and "rows bu \<noteq> []"
  shows "\<exists>hv. rule_high_value bu = Inr [(''high_value_unmatched'', hv)] \<and>
           map snd (rows hv) =
             filter (\<lambda>r. ge_cell (amount r) (quantile (9 / 10) (map amount (map snd (rows bu)))))
                    (map snd (rows bu)) \<and>
           map fst (rows hv) = [0 ..< length (rows hv)]"
proof -
  let ?col = "map (\<lambda>(i, r). amount r) (rows bu)"
  let ?t = "quantile (9 / 10) ?col"
  let ?g = "\<lambda>x :: nat \<times> bank_row. ge_cell (amount (snd x)) ?t"
  let ?hv = "reset_index (select (map ?g (rows bu)) bu)"
  have col: "?col = map amount (map snd (rows bu))" by (simp add: split_def comp_def)
  have mask: "ge_mask ?col ?t = map ?g (rows bu)" by (simp add: ge_mask_def split_def comp_def)
  have "rule_high_value bu = Inr [(''high_value_unmatched'', ?hv)]"
    using assms columns_nonempty [OF assms(1)]
    by (simp add: rule_high_value_def get_amount_def Let_def mask)
  moreover have "map snd (rows ?hv) = filter (\<lambda>r. ge_cell (amount r) ?t) (map snd (rows bu))"
    by (rule rows_reset_select) simp
  moreover have "map fst (rows ?hv) = [0 ..< length (rows ?hv)]"
    by (rule index_reset)
  ultimately show ?thesis unfolding col by blast
qed

lemma rule_high_value_absent:
  "empty bu \<or> ''amount'' \<notin> set (columns bu) \<Longrightarrow> rule_high_value bu = Inr []"
  by (auto simp: rule_high_value_def)

lemma rule_high_value_total:
  "rule_high_value bu = Inr [] \<or> (\<exists>hv. rule_high_value bu = Inr [(''high_value_unmatched'', hv)])"
proof (cases "empty bu \<or> ''amount'' \<notin> set (columns bu)")
  case True
  then show ?thesis by (simp add: rule_high_value_absent)
next
  case False
  then have "''amount'' \<in> set (columns bu)" and "rows bu \<noteq> []" by (auto simp: empty_def)
  from rule_high_value_present [OF this] show ?thesis by blast
qed

lemma count_two_positions:
  assumes "i < j" and "j < length ks" and "ks ! i = ks ! j"
  shows "1 < count_list ks (ks ! i)"
proof -
  have i: "i < length ks" using assms by simp
  have "ks ! j \<in> set (drop (Suc i) ks)"
  proof -
    have "drop (Suc i) ks ! (j - Suc i) = ks ! j" using assms by simp
    moreover have "j - Suc i < length (drop (Suc i) ks)" using assms by simp
    ultimately show ?thesis by (metis nth_mem)
  qed
  then show ?thesis using seen_elsewhere_iff [OF i] assms(3) by simp
qed

subsection \<open>The two rules\<close>

lemma compute_findings_shape:
  "\<exists>dup f2. rule_duplicates bu = Inr [(''duplicate_txn'', dup)] \<and> rule_high_value bu = Inr f2 \<and>
     (f2 = [] \<or> (\<exists>hv. f2 = [(''high_value_unmatched'', hv)])) \<and>
     compute_findings matches bu iu = Inr ((''duplicate_txn'', dup) # f2)"
proof -
  from rule_duplicates_total [of bu] obtain dup where d: "rule_duplicates bu = Inr [(''duplicate_txn'', dup)]"
    by blast
  from rule_high_value_total [of bu] obtain f2 where h: "rule_high_value bu = Inr f2"
    and s: "f2 = [] \<or> (\<exists>hv. f2 = [(''high_value_unmatched'', hv)])" by auto
  from d h have "compute_findings matches bu iu = Inr ((''duplicate_txn'', dup) # f2)"
    by (simp add: compute_findings_def)
  with d h s show ?thesis by blast
qed

subsection \<open>Merging\<close>








text \<open>
  The two cases of the specification: an empty \<^verbatim>\<open>duplicate_txn\<close> of the matcher takes the
  engine's two rows; a \<^verbatim>\<open>duplicate_txn\<close> with one row is kept.
\<close>

lemma merge_examples:
  "merge_findings [''duplicate_txn'' \<mapsto> Frame DataFrame] [(''duplicate_txn'', two_rows)] ''duplicate_txn''
     = Some (Frame two_rows) \<and> length (rows two_rows) = 2 \<and>
   merge_findings [''duplicate_txn'' \<mapsto> Frame one_row] [(''duplicate_txn'', two_rows)] ''duplicate_txn''
     = Some (Frame one_row) \<and> length (rows one_row) = 1"
  by (simp add: merge_findings_def merge_step_def one_row_def two_rows_def frame_of_def loc_def
      empty_def bank_columns_def DataFrame_def)

subsection \<open>Duplicates\<close>

text \<open>
  Claim C5. When the unmatched transactions have the columns \<^verbatim>\<open>amount\<close> and \<^verbatim>\<open>date\<close>
  (as the frames that \<^verbatim>\<open>match\<close> returns have), \<^verbatim>\<open>compute_findings\<close> succeeds and its
  \<^verbatim>\<open>duplicate_txn\<close> finding lists, in their original order and re-indexed from 0,
  exactly the rows whose (amount, date) pair occurs more than once among the unmatched
  transactions: every occurrence, the first one included, and no row with a unique
  pair.
\<close>

theorem duplicate_txn_flags_every_occurrence:
  assumes "''amount'' \<in> set (columns bu)" and "''date'' \<in> set (columns bu)"
  shows "\<exists>fs dup. compute_findings matches bu iu = Inr fs \<and>
           map_of fs ''duplicate_txn'' = Some dup \<and>
           map snd (rows dup) =
             filter (\<lambda>r. 1 < count_list (map dup_key (map snd (rows bu))) (dup_key r))
                    (map snd (rows bu)) \<and>
           map fst (rows dup) = [0 ..< length (rows dup)]"
proof -
  from rule_duplicates_present [OF assms] obtain dup where
    d: "rule_duplicates bu = Inr [(''duplicate_txn'', dup)]"
    and r: "map snd (rows dup) =
             filter (\<lambda>r. 1 < count_list (map dup_key (map snd (rows bu))) (dup_key r))
                    (map snd (rows bu))"
    and i: "map fst (rows dup) = [0 ..< length (rows dup)]" by blast
  from compute_findings_shape [of bu matches iu] d obtain f2 where
    "compute_findings matches bu iu = Inr ((''duplicate_txn'', dup) # f2)" by auto
  with r i show ?thesis by auto
qed

theorem duplicate_txn_flags_every_occurrence_witness:
  "''amount'' \<in> set (columns three_txns) \<and> ''date'' \<in> set (columns three_txns) \<and>
   (\<exists>fs dup. compute_findings [] three_txns DataFrame = Inr fs \<and>
      map_of fs ''duplicate_txn'' = Some dup \<and>
      map snd (rows dup) =
        filter (\<lambda>r. 1 < count_list (map dup_key (map snd (rows three_txns))) (dup_key r))
               (map snd (rows three_txns)) \<and>
      map fst (rows dup) = [0 ..< length (rows dup)])"
proof -
  have h1: "''amount'' \<in> set (columns three_txns)"
    by (simp add: three_txns_def frame_of_def loc_def bank_columns_def)
  have h2: "''date'' \<in> set (columns three_txns)"
    by (simp add: three_txns_def frame_of_def loc_def bank_columns_def)
  from duplicate_txn_flags_every_occurrence [OF h1 h2, of "[]" DataFrame] h1 h2 show ?thesis
    by blast
qed

text \<open>
  Two transactions of 500.00 on the same date are both flagged; a third of 750.00 on
  that date is not.
\<close>

lemma duplicate_flag_example:
  "(case compute_findings [] three_txns DataFrame of
      Inl e \<Rightarrow> []
    | Inr fs \<Rightarrow> map (\<lambda>(k, f). (k, map (\<lambda>(i, r). (i, amount r)) (rows f))) fs) =
   [(''duplicate_txn'', [(0, Some 500), (1, Some 500)]), (''high_value_unmatched'', [(0, Some 750)])]"
  by code_simp

subsection \<open>High-value outliers\<close>



text \<open>For the amounts 10, 20, ..., 100 the percentile is 91 and only 100 is flagged.\<close>

lemma high_value_threshold_example:
  "quantile (9 / 10) (map (\<lambda>(i, r). amount r) (rows ten_amounts)) = Some 91 \<and>
   (case compute_findings [] ten_amounts DataFrame of
      Inl e \<Rightarrow> []
    | Inr fs \<Rightarrow> map (\<lambda>(k, f). (k, map (\<lambda>(i, r). (i, amount r)) (rows f))) fs) =
   [(''duplicate_txn'', []), (''high_value_unmatched'', [(0, Some 100)])]"
  by code_simp

subsection \<open>Null amounts\<close>

text \<open>
  Claim C10. Two unmatched transactions with a null amount and the same date are both
  marked by the duplicate mask and both appear in \<^verbatim>\<open>duplicate_txn\<close>; and no row of
  \<^verbatim>\<open>high_value_unmatched\<close> has a null amount.
\<close>

theorem null_amounts_in_findings:
  "(''amount'' \<in> set (columns bu) \<and> ''date'' \<in> set (columns bu) \<and> i < j \<and> j < length (rows bu) \<and>
    amount (snd (rows bu ! i)) = None \<and> amount (snd (rows bu ! j)) = None \<and>
    date (snd (rows bu ! i)) = date (snd (rows bu ! j)) \<longrightarrow>
    (\<exists>msk fs dup. duplicated [''amount'', ''date''] bu = Inr msk \<and> msk ! i \<and> msk ! j \<and>
       compute_findings matches bu iu = Inr fs \<and> map_of fs ''duplicate_txn'' = Some dup \<and>
       snd (rows bu ! i) \<in> set (map snd (rows dup)) \<and>
       snd (rows bu ! j) \<in> set (map snd (rows dup)))) \<and>
   (\<forall>fs hv. compute_findings matches bu iu = Inr fs \<and>
       map_of fs ''high_value_unmatched'' = Some hv \<longrightarrow>
       (\<forall>x \<in> set (rows hv). amount (snd x) \<noteq> None))"
proof (intro conjI impI allI)
  assume a: "''amount'' \<in> set (columns bu) \<and> ''date'' \<in> set (columns bu) \<and> i < j \<and>
    j < length (rows bu) \<and> amount (snd (rows bu ! i)) = None \<and> amount (snd (rows bu ! j)) = None \<and>
    date (snd (rows bu ! i)) = date (snd (rows bu ! j))"
  then have cols: "''amount'' \<in> set (columns bu)" "''date'' \<in> set (columns bu)"
    and ij: "i < j" "j < length (rows bu)" by simp_all
  let ?ks = "map (\<lambda>x. dup_key (snd x)) (rows bu)"
  let ?msk = "map (\<lambda>x. 1 < count_list ?ks (dup_key (snd x))) (rows bu)"
  have keq: "?ks ! i = ?ks ! j" using a by (simp add: dup_key_def)
  have ci: "1 < count_list ?ks (?ks ! i)"
    by (rule count_two_positions [OF ij(1) _ keq]) (simp add: ij)
  then have cj: "1 < count_list ?ks (?ks ! j)" using keq by simp
  have mi: "?msk ! i" using ci ij by simp
  have mj: "?msk ! j" using cj ij by simp
  from rule_duplicates_present [OF cols] obtain dup where
    d: "rule_duplicates bu = Inr [(''duplicate_txn'', dup)]"
    and r: "map snd (rows dup) =
             filter (\<lambda>r. 1 < count_list (map dup_key (map snd (rows bu))) (dup_key r))
                    (map snd (rows bu))" by blast
  from compute_findings_shape [of bu matches iu] d obtain f2 where
    c: "compute_findings matches bu iu = Inr ((''duplicate_txn'', dup) # f2)" by auto
  have ks: "map dup_key (map snd (rows bu)) = ?ks" by simp
  have ri: "snd (rows bu ! i) \<in> set (map snd (rows dup))"
    unfolding r ks using ci ij by simp
  have rj: "snd (rows bu ! j) \<in> set (map snd (rows dup))"
    unfolding r ks using cj ij by simp
  from duplicated_amount_date [OF cols] mi mj c ri rj
  show "\<exists>msk fs dup. duplicated [''amount'', ''date''] bu = Inr msk \<and> msk ! i \<and> msk ! j \<and>
       compute_findings matches bu iu = Inr fs \<and> map_of fs ''duplicate_txn'' = Some dup \<and>
       snd (rows bu ! i) \<in> set (map snd (rows dup)) \<and>
       snd (rows bu ! j) \<in> set (map snd (rows dup))"
    by (intro exI [of _ ?msk] exI [of _ "(''duplicate_txn'', dup) # f2"] exI [of _ dup]) simp
next
  fix fs hv
  assume a: "compute_findings matches bu iu = Inr fs \<and> map_of fs ''high_value_unmatched'' = Some hv"
  from rule_duplicates_total [of bu] obtain dup where
    d: "rule_duplicates bu = Inr [(''duplicate_txn'', dup)]" by blast
  show "\<forall>x \<in> set (rows hv). amount (snd x) \<noteq> None"
  proof (cases "empty bu \<or> ''amount'' \<notin> set (columns bu)")
    case True
    then have "rule_high_value bu = Inr []" by (rule rule_high_value_absent)
    with d a show ?thesis by (auto simp: compute_findings_def)
  next
    case False
    then have "''amount'' \<in> set (columns bu)" and "rows bu \<noteq> []" by (auto simp: empty_def)
    from rule_high_value_present [OF this] obtain hv' where
      h: "rule_high_value bu = Inr [(''high_value_unmatched'', hv')]"
      and r: "map snd (rows hv') =
             filter (\<lambda>r. ge_cell (amount r) (quantile (9 / 10) (map amount (map snd (rows bu)))))
                    (map snd (rows bu))" by blast
    from d h a have "hv = hv'" by (auto simp: compute_findings_def)
    have "\<forall>r \<in> set (map snd (rows hv')). amount r \<noteq> None"
      unfolding r by (auto simp: ge_cell_iff)
    with \<open>hv = hv'\<close> show ?thesis by auto
  qed
qed

theorem null_amounts_in_findings_witness:
  "amount (snd (rows null_pair ! 0)) = None \<and> amount (snd (rows null_pair ! 1)) = None \<and>
   date (snd (rows null_pair ! 0)) = date (snd (rows null_pair ! 1)) \<and>
   (\<exists>msk fs dup. duplicated [''amount'', ''date''] null_pair = Inr msk \<and> msk ! 0 \<and> msk ! 1 \<and>
      compute_findings [] null_pair DataFrame = Inr fs \<and> map_of fs ''duplicate_txn'' = Some dup \<and>
      snd (rows null_pair ! 0) \<in> set (map snd (rows dup)) \<and>
      snd (rows null_pair ! 1) \<in> set (map snd (rows dup)))"
proof -
  have c: "''amount'' \<in> set (columns null_pair)" "''date'' \<in> set (columns null_pair)"
    by (simp_all add: null_pair_def frame_of_def loc_def bank_columns_def)
  have l: "(0::nat) < 1" "1 < length (rows null_pair)"
    by (simp_all add: null_pair_def frame_of_def loc_def)
  have a: "amount (snd (rows null_pair ! 0)) = None" "amount (snd (rows null_pair ! 1)) = None"
    "date (snd (rows null_pair ! 0)) = date (snd (rows null_pair ! 1))"
    by (simp_all add: null_pair_def frame_of_def loc_def cash_def add_extracted_ref_def Let_def)
  from null_amounts_in_findings [of null_pair 0 1 "[]" DataFrame] c l a show ?thesis
    by blast
qed

lemma null_amount_example:
  "(case compute_findings [] null_pair DataFrame of
      Inl e \<Rightarrow> []
    | Inr fs \<Rightarrow> map (\<lambda>(k, f). (k, map (\<lambda>(i, r). (i, amount r)) (rows f))) fs) =
   [(''duplicate_txn'', [(0, None), (1, None)]), (''high_value_unmatched'', [(0, Some 5)])]"
  by code_simp

subsection \<open>Totality\<close>



lemma empty_input_example:
  "compute_findings [] (DataFrame :: bank_row frame) DataFrame = Inr [(''duplicate_txn'', DataFrame)] \<and>
   compute_findings [] \<lparr>columns = bank_columns, rows = []\<rparr> DataFrame = Inr [(''duplicate_txn'', DataFrame)]"
  by (simp add: compute_findings_def rule_duplicates_def rule_high_value_def empty_def DataFrame_def)

subsection \<open>The matcher of the reference patterns\<close>

lemma upper_is_word: "is_upper c \<Longrightarrow> is_word c"
  by (auto simp: is_upper_def is_word_def)

lemma digit_is_word: "is_digit c \<Longrightarrow> is_word c"
  by (auto simp: is_digit_def is_word_def)

lemma digit_not_upper: "is_digit c \<Longrightarrow> \<not> is_upper c"
  by (auto simp: is_digit_def is_upper_def digits_def uppercase_letters_def)

lemma hyphen_not_upper: "\<not> is_upper CHR ''-''"
  by (simp add: is_upper_def uppercase_letters_def)

lemma last_char_eq: "last_char prev xs = (if xs = [] then prev else Some (last xs))"
  by (induction xs arbitrary: prev) auto

lemma first_some_SomeD: "first_some xs = Some m \<Longrightarrow> Some m \<in> set xs"
  by (induction xs rule: first_some.induct) auto

lemma first_some_None: "first_some xs = None \<longleftrightarrow> (\<forall>x \<in> set xs. x = None)"
  by (induction xs rule: first_some.induct) auto

lemma greedy_first:
  assumes "n \<le> L" and "f L = Some m"
  shows "first_some (map f (rev [n ..< Suc L])) = Some m"
proof -
  have "rev [n ..< Suc L] = L # rev [n ..< L]" using assms(1) by simp
  then show ?thesis using assms(2) by simp
qed

lemma at_least_SomeD:
  assumes "match_here (AtLeast n k # p) prev s = Some m"
  shows "\<exists>j m'. n \<le> j \<and> j \<le> length (takeWhile (in_cls k) s) \<and>
           match_here p (last_char prev (take j s)) (drop j s) = Some m' \<and> m = take j s @ m'"
proof -
  from assms have "Some m \<in> set (map (\<lambda>j. map_option ((@) (take j s))
                    (match_here p (last_char prev (take j s)) (drop j s)))
            (rev [n ..< Suc (length (takeWhile (in_cls k) s))]))"
    by (simp only: match_here.simps first_some_SomeD)
  then obtain j where j: "n \<le> j" "j \<le> length (takeWhile (in_cls k) s)"
    and e: "Some m = map_option ((@) (take j s)) (match_here p (last_char prev (take j s)) (drop j s))"
    by auto
  from e obtain m' where "match_here p (last_char prev (take j s)) (drop j s) = Some m'"
    and "m = take j s @ m'" by (cases "match_here p (last_char prev (take j s)) (drop j s)") auto
  with j show ?thesis by blast
qed

lemma at_least_longest:
  assumes "n \<le> length (takeWhile (in_cls k) s)"
    and "match_here p (last_char prev (takeWhile (in_cls k) s)) (dropWhile (in_cls k) s) = Some m'"
  shows "match_here (AtLeast n k # p) prev s = Some (takeWhile (in_cls k) s @ m')"
proof -
  let ?L = "length (takeWhile (in_cls k) s)"
  have t: "take ?L s = takeWhile (in_cls k) s"
    by (metis append_eq_conv_conj takeWhile_dropWhile_id)
  have d: "drop ?L s = dropWhile (in_cls k) s"
    by (metis append_eq_conv_conj takeWhile_dropWhile_id)
  show ?thesis
    unfolding match_here.simps
    by (rule greedy_first [OF assms(1)]) (simp add: t d assms(2))
qed

lemma take_run:
  "j \<le> length (takeWhile P s) \<Longrightarrow> \<forall>c \<in> set (take j s). P c"
proof -
  assume j: "j \<le> length (takeWhile P s)"
  have "take j s = take j (takeWhile P s)"
    by (metis j takeWhile_dropWhile_id take_append diff_is_0_eq take_0 append_Nil2)
  then have "set (take j s) \<subseteq> set (takeWhile P s)" by (metis set_take_subset)
  then show ?thesis by (auto dest: set_takeWhileD)
qed

lemma nil_Some: "match_here [] prev s = Some m \<longleftrightarrow> m = []"
  by auto

lemma bnd_Some:
  "match_here (Bnd # p) prev s = Some m \<longleftrightarrow>
   word_before prev \<noteq> word_after s \<and> match_here p prev s = Some m"
  by simp

lemma lit_Some:
  "match_here (Lit c # p) prev s = Some m \<longleftrightarrow>
   (\<exists>xs m'. s = c # xs \<and> m = c # m' \<and> match_here p (Some c) xs = Some m')"
  by (cases s) auto

declare match_here.simps [simp del]

lemma word_after_append: "xs \<noteq> [] \<Longrightarrow> word_after (xs @ ys) = is_word (hd xs)"
  by (cases xs) auto

lemma takeWhile_run:
  assumes "\<forall>c \<in> set ls. P c" and "rest = [] \<or> \<not> P (hd rest)"
  shows "takeWhile P (ls @ rest) = ls" and "dropWhile P (ls @ rest) = rest"
proof -
  have "takeWhile P rest = []" using assms(2) by (cases rest) auto
  then show "takeWhile P (ls @ rest) = ls" using assms(1) by (simp add: takeWhile_append2)
  have "dropWhile P rest = rest" using assms(2) by (cases rest) auto
  then show "dropWhile P (ls @ rest) = rest" using assms(1) by (simp add: dropWhile_append2)
qed

lemma not_word_after: "\<not> word_after rest \<Longrightarrow> rest = [] \<or> \<not> is_word (hd rest)"
  by (cases rest) auto

lemma digits_end:
  assumes "n \<le> length ds" and "1 \<le> length ds" and "\<forall>c \<in> set ds. is_digit c"
    and "\<not> word_after rest"
  shows "match_here [AtLeast n Digit, Bnd] prev (ds @ rest) = Some ds"
proof -
  have dsne: "ds \<noteq> []" using assms(2) by auto
  have D: "\<forall>c \<in> set ds. in_cls Digit c" using assms(3) by simp
  have r: "rest = [] \<or> \<not> in_cls Digit (hd rest)"
    using not_word_after [OF assms(4)] digit_is_word by auto
  have tw: "takeWhile (in_cls Digit) (ds @ rest) = ds"
    by (rule takeWhile_run(1) [OF D r])
  have dw: "dropWhile (in_cls Digit) (ds @ rest) = rest"
    by (rule takeWhile_run(2) [OF D r])
  have "is_word (last ds)" using assms(3) dsne digit_is_word by simp
  then have "word_before (last_char prev ds) \<noteq> word_after rest"
    using assms(4) dsne by (simp add: last_char_eq)
  then have e: "match_here [Bnd] (last_char prev ds) rest = Some []"
    by (simp add: bnd_Some nil_Some)
  have "match_here (AtLeast n Digit # [Bnd]) prev (ds @ rest) =
        Some (takeWhile (in_cls Digit) (ds @ rest) @ [])"
  proof (rule at_least_longest)
    show "n \<le> length (takeWhile (in_cls Digit) (ds @ rest))" using assms(1) by (simp only: tw)
    show "match_here [Bnd] (last_char prev (takeWhile (in_cls Digit) (ds @ rest)))
            (dropWhile (in_cls Digit) (ds @ rest)) = Some []"
      using e by (simp only: tw dw)
  qed
  then show ?thesis by (simp only: tw append_Nil2)
qed

lemma digits_end_elim:
  assumes "match_here [AtLeast n Digit, Bnd] prev xs = Some m" and "1 \<le> n"
  shows "n \<le> length m \<and> (\<forall>c \<in> set m. is_digit c) \<and> (\<exists>rest. xs = m @ rest \<and> \<not> word_after rest)"
proof -
  from at_least_SomeD [OF assms(1)] obtain j m3 where j: "n \<le> j" "j \<le> length (takeWhile (in_cls Digit) xs)"
    and e: "match_here [Bnd] (last_char prev (take j xs)) (drop j xs) = Some m3"
    and m: "m = take j xs @ m3" by blast
  from e have m3: "m3 = []"
    and be: "word_before (last_char prev (take j xs)) \<noteq> word_after (drop j xs)"
    by (simp_all add: bnd_Some nil_Some)
  have jl: "j \<le> length xs" using j(2) length_takeWhile_le [of "in_cls Digit" xs] by simp
  have mm: "m = take j xs" using m m3 by simp
  have D: "\<forall>c \<in> set m. is_digit c" using take_run [OF j(2)] mm by simp
  have len: "length m = j" using jl mm by simp
  have ne: "m \<noteq> []" using len j(1) assms(2) by auto
  have "is_word (last m)" using D ne digit_is_word by simp
  then have "\<not> word_after (drop j xs)" using be ne mm by (simp add: last_char_eq)
  moreover have "xs = m @ drop j xs" using mm by simp
  ultimately show ?thesis using len j(1) D by blast
qed

lemma letters_start:
  assumes "2 \<le> length ls" and "\<forall>c \<in> set ls. is_upper c" and "rest = [] \<or> \<not> is_upper (hd rest)"
    and "match_here p (last_char prev ls) rest = Some m'" and "\<not> word_before prev"
  shows "match_here (Bnd # AtLeast 2 Upper # p) prev (ls @ rest) = Some (ls @ m')"
proof -
  have lsne: "ls \<noteq> []" using assms(1) by auto
  have U: "\<forall>c \<in> set ls. in_cls Upper c" using assms(2) by simp
  have r: "rest = [] \<or> \<not> in_cls Upper (hd rest)" using assms(3) by simp
  have tw: "takeWhile (in_cls Upper) (ls @ rest) = ls"
    by (rule takeWhile_run(1) [OF U r])
  have dw: "dropWhile (in_cls Upper) (ls @ rest) = rest"
    by (rule takeWhile_run(2) [OF U r])
  have "match_here (AtLeast 2 Upper # p) prev (ls @ rest) =
        Some (takeWhile (in_cls Upper) (ls @ rest) @ m')"
  proof (rule at_least_longest)
    show "2 \<le> length (takeWhile (in_cls Upper) (ls @ rest))" using assms(1) by (simp only: tw)
    show "match_here p (last_char prev (takeWhile (in_cls Upper) (ls @ rest)))
            (dropWhile (in_cls Upper) (ls @ rest)) = Some m'"
      using assms(4) by (simp only: tw dw)
  qed
  then have u: "match_here (AtLeast 2 Upper # p) prev (ls @ rest) = Some (ls @ m')"
    by (simp only: tw)
  have "is_word (hd ls)" using assms(2) lsne upper_is_word by simp
  then have "word_after (ls @ rest)" using lsne by (simp add: word_after_append)
  with assms(5) u show ?thesis by (simp add: bnd_Some)
qed

lemma letters_start_elim:
  assumes "match_here (Bnd # AtLeast 2 Upper # p) prev s = Some m"
  shows "\<not> word_before prev \<and>
         (\<exists>ls rest m'. s = ls @ rest \<and> m = ls @ m' \<and> 2 \<le> length ls \<and> (\<forall>c \<in> set ls. is_upper c) \<and>
            match_here p (last_char prev ls) rest = Some m')"
proof -
  from assms have b: "word_before prev \<noteq> word_after s"
    and u: "match_here (AtLeast 2 Upper # p) prev s = Some m"
    by (simp_all add: bnd_Some)
  from at_least_SomeD [OF u] obtain j m1 where j: "2 \<le> j" "j \<le> length (takeWhile (in_cls Upper) s)"
    and c: "match_here p (last_char prev (take j s)) (drop j s) = Some m1"
    and m: "m = take j s @ m1" by blast
  let ?ls = "take j s"
  have jl: "j \<le> length s" using j(2) length_takeWhile_le [of "in_cls Upper" s] by simp
  have U: "\<forall>c \<in> set ?ls. is_upper c" using take_run [OF j(2)] by simp
  have len: "length ?ls = j" using jl by simp
  have lsne: "?ls \<noteq> []" using len j(1) by auto
  have "hd ?ls \<in> set ?ls" using lsne by (rule hd_in_set)
  then have w: "is_word (hd ?ls)" using U upper_is_word by blast
  have s: "s = ?ls @ drop j s" by simp
  have "word_after (?ls @ drop j s) = is_word (hd ?ls)" using lsne by (rule word_after_append)
  with w have "word_after (?ls @ drop j s)" by simp
  then have "word_after s" by simp
  with b have "\<not> word_before prev" by simp
  moreover have "2 \<le> length ?ls" using len j(1) by simp
  ultimately show ?thesis using s m U c by blast
qed

lemma match_pattern_a_iff:
  "match_here pattern_a prev s = Some m \<longleftrightarrow>
   \<not> word_before prev \<and> shape_a m \<and> (\<exists>rest. s = m @ rest \<and> \<not> word_after rest)"
proof
  assume "match_here pattern_a prev s = Some m"
  then have "match_here (Bnd # AtLeast 2 Upper # [Lit CHR ''-'', AtLeast 1 Digit, Bnd]) prev s = Some m"
    by (simp add: pattern_a_def)
  from letters_start_elim [OF this] obtain ls rest1 m1 where nb: "\<not> word_before prev"
    and s: "s = ls @ rest1" and m: "m = ls @ m1" and ls: "2 \<le> length ls" "\<forall>c \<in> set ls. is_upper c"
    and l: "match_here [Lit CHR ''-'', AtLeast 1 Digit, Bnd] (last_char prev ls) rest1 = Some m1"
    by blast
  from l obtain xs m2 where r1: "rest1 = CHR ''-'' # xs" and m1: "m1 = CHR ''-'' # m2"
    and d: "match_here [AtLeast 1 Digit, Bnd] (Some CHR ''-'') xs = Some m2"
    by (auto simp: lit_Some)
  from digits_end_elim [OF d] obtain rest where ds: "1 \<le> length m2" "\<forall>c \<in> set m2. is_digit c"
    and xs: "xs = m2 @ rest" and wa: "\<not> word_after rest" by auto
  have "shape_a m" unfolding shape_a_def using m m1 ls ds by blast
  moreover have "s = m @ rest" using s r1 xs m m1 by simp
  ultimately show "\<not> word_before prev \<and> shape_a m \<and> (\<exists>rest. s = m @ rest \<and> \<not> word_after rest)"
    using nb wa by blast
next
  assume a: "\<not> word_before prev \<and> shape_a m \<and> (\<exists>rest. s = m @ rest \<and> \<not> word_after rest)"
  then obtain rest where s: "s = m @ rest" and wa: "\<not> word_after rest" by blast
  from a obtain ls ds where m: "m = ls @ CHR ''-'' # ds" and ls: "2 \<le> length ls"
    "\<forall>c \<in> set ls. is_upper c" and ds: "1 \<le> length ds" "\<forall>c \<in> set ds. is_digit c"
    unfolding shape_a_def by blast
  have d: "match_here [AtLeast 1 Digit, Bnd] (Some CHR ''-'') (ds @ rest) = Some ds"
    by (rule digits_end [OF ds(1) ds(1) ds(2) wa])
  then have l: "match_here [Lit CHR ''-'', AtLeast 1 Digit, Bnd] (last_char prev ls)
                  (CHR ''-'' # ds @ rest) = Some (CHR ''-'' # ds)"
    by (simp add: lit_Some)
  have "match_here (Bnd # AtLeast 2 Upper # [Lit CHR ''-'', AtLeast 1 Digit, Bnd]) prev
          (ls @ (CHR ''-'' # ds @ rest)) = Some (ls @ CHR ''-'' # ds)"
    by (rule letters_start [OF ls _ l]) (simp_all add: hyphen_not_upper a)
  then show "match_here pattern_a prev s = Some m"
    by (simp add: pattern_a_def s m)
qed

lemma match_pattern_b_iff:
  "match_here pattern_b prev s = Some m \<longleftrightarrow>
   \<not> word_before prev \<and> shape_b m \<and> (\<exists>rest. s = m @ rest \<and> \<not> word_after rest)"
proof
  assume "match_here pattern_b prev s = Some m"
  then have "match_here (Bnd # AtLeast 2 Upper # [AtLeast 2 Digit, Bnd]) prev s = Some m"
    by (simp add: pattern_b_def)
  from letters_start_elim [OF this] obtain ls rest1 m1 where nb: "\<not> word_before prev"
    and s: "s = ls @ rest1" and m: "m = ls @ m1" and ls: "2 \<le> length ls" "\<forall>c \<in> set ls. is_upper c"
    and d: "match_here [AtLeast 2 Digit, Bnd] (last_char prev ls) rest1 = Some m1"
    by blast
  from digits_end_elim [OF d] obtain rest where ds: "2 \<le> length m1" "\<forall>c \<in> set m1. is_digit c"
    and r1: "rest1 = m1 @ rest" and wa: "\<not> word_after rest" by auto
  have "shape_b m" unfolding shape_b_def using m ls ds by blast
  moreover have "s = m @ rest" using s r1 m by simp
  ultimately show "\<not> word_before prev \<and> shape_b m \<and> (\<exists>rest. s = m @ rest \<and> \<not> word_after rest)"
    using nb wa by blast
next
  assume a: "\<not> word_before prev \<and> shape_b m \<and> (\<exists>rest. s = m @ rest \<and> \<not> word_after rest)"
  then obtain rest where s: "s = m @ rest" and wa: "\<not> word_after rest" by blast
  from a obtain ls ds where m: "m = ls @ ds" and ls: "2 \<le> length ls"
    "\<forall>c \<in> set ls. is_upper c" and ds: "2 \<le> length ds" "\<forall>c \<in> set ds. is_digit c"
    unfolding shape_b_def by blast
  have ds1: "1 \<le> length ds" using ds(1) by simp
  have dsne: "ds \<noteq> []" using ds(1) by auto
  have d: "match_here [AtLeast 2 Digit, Bnd] (last_char prev ls) (ds @ rest) = Some ds"
    by (rule digits_end [OF ds(1) ds1 ds(2) wa])
  have "is_digit (hd ds)" using ds(2) dsne by simp
  then have nu: "ds @ rest = [] \<or> \<not> is_upper (hd (ds @ rest))"
    using dsne digit_not_upper by simp
  have "match_here (Bnd # AtLeast 2 Upper # [AtLeast 2 Digit, Bnd]) prev (ls @ (ds @ rest)) = Some (ls @ ds)"
    using a by (intro letters_start [OF ls nu d]) simp
  then show "match_here pattern_b prev s = Some m"
    by (simp add: pattern_b_def s m)
qed

lemma search_from_None:
  "search_from p prev s = None \<longleftrightarrow>
   (\<forall>i \<le> length s. match_here p (last_char prev (take i s)) (drop i s) = None)"
proof (induction s arbitrary: prev)
  case Nil
  then show ?case by simp
next
  case (Cons x xs)
  show ?case
  proof (cases "match_here p prev (x # xs)")
    case (Some m')
    then have "\<not> (\<forall>i \<le> length (x # xs). match_here p (last_char prev (take i (x # xs))) (drop i (x # xs)) = None)"
      by (auto intro: exI [of _ 0])
    with Some show ?thesis by simp
  next
    case None
    have "(\<forall>i \<le> length (x # xs). match_here p (last_char prev (take i (x # xs))) (drop i (x # xs)) = None) \<longleftrightarrow>
          (\<forall>i \<le> length xs. match_here p (last_char (Some x) (take i xs)) (drop i xs) = None)"
      (is "?L \<longleftrightarrow> ?R")
    proof
      assume l: ?L
      show ?R
      proof (intro allI impI)
        fix i assume "i \<le> length xs"
        then have "Suc i \<le> length (x # xs)" by simp
        with l have "match_here p (last_char prev (take (Suc i) (x # xs))) (drop (Suc i) (x # xs)) = None"
          by blast
        then show "match_here p (last_char (Some x) (take i xs)) (drop i xs) = None" by simp
      qed
    next
      assume r: ?R
      show ?L
      proof (intro allI impI)
        fix i assume i: "i \<le> length (x # xs)"
        show "match_here p (last_char prev (take i (x # xs))) (drop i (x # xs)) = None"
        proof (cases i)
          case 0
          then show ?thesis using None by simp
        next
          case (Suc k)
          with i have "k \<le> length xs" by simp
          with r have "match_here p (last_char (Some x) (take k xs)) (drop k xs) = None" by blast
          with Suc show ?thesis by simp
        qed
      qed
    qed
    with None Cons.IH [of "Some x"] show ?thesis by simp
  qed
qed

lemma search_from_Some:
  "search_from p prev s = Some m \<Longrightarrow>
   \<exists>i \<le> length s. match_here p (last_char prev (take i s)) (drop i s) = Some m \<and>
     (\<forall>j < i. match_here p (last_char prev (take j s)) (drop j s) = None)"
proof (induction s arbitrary: prev)
  case Nil
  then show ?case by simp
next
  case (Cons x xs)
  show ?case
  proof (cases "match_here p prev (x # xs)")
    case (Some m')
    with Cons.prems have "m' = m" by simp
    with Some show ?thesis by (auto intro!: exI [of _ 0])
  next
    case None
    with Cons.prems have "search_from p (Some x) xs = Some m" by simp
    from Cons.IH [OF this] obtain k where k: "k \<le> length xs"
      and mk: "match_here p (last_char (Some x) (take k xs)) (drop k xs) = Some m"
      and nk: "\<forall>j < k. match_here p (last_char (Some x) (take j xs)) (drop j xs) = None"
      by blast
    have "\<forall>j < Suc k. match_here p (last_char prev (take j (x # xs))) (drop j (x # xs)) = None"
    proof (intro allI impI)
      fix j assume j: "j < Suc k"
      show "match_here p (last_char prev (take j (x # xs))) (drop j (x # xs)) = None"
      proof (cases j)
        case 0
        then show ?thesis using None by simp
      next
        case (Suc j')
        with j have "j' < k" by simp
        with nk have "match_here p (last_char (Some x) (take j' xs)) (drop j' xs) = None" by blast
        with Suc show ?thesis by simp
      qed
    qed
    moreover have "match_here p (last_char prev (take (Suc k) (x # xs))) (drop (Suc k) (x # xs)) = Some m"
      using mk by simp
    moreover have "Suc k \<le> length (x # xs)" using k by simp
    ultimately show ?thesis by blast
  qed
qed

lemma split_at:
  assumes "i \<le> length t"
  shows "(\<exists>rest. drop i t = w @ rest \<and> \<not> word_after rest) \<longleftrightarrow>
         substring_at w t i \<and> \<not> word_after (drop (i + length w) t)"
proof
  assume "\<exists>rest. drop i t = w @ rest \<and> \<not> word_after rest"
  then obtain rest where d: "drop i t = w @ rest" and wa: "\<not> word_after rest" by blast
  have "length (drop i t) = length w + length rest" using d by simp
  then have le: "i + length w \<le> length t" using assms by simp
  have tk: "take (length w) (drop i t) = w" using d by simp
  have "drop (i + length w) t = drop (length w) (drop i t)" by (simp add: add.commute)
  also have "\<dots> = rest" using d by simp
  finally show "substring_at w t i \<and> \<not> word_after (drop (i + length w) t)"
    using le tk wa by (simp add: substring_at_def)
next
  assume a: "substring_at w t i \<and> \<not> word_after (drop (i + length w) t)"
  then have tk: "take (length w) (drop i t) = w" by (simp add: substring_at_def)
  have "drop i t = take (length w) (drop i t) @ drop (length w) (drop i t)"
    by (simp only: append_take_drop_id)
  also have "\<dots> = w @ drop (i + length w) t" using tk by (simp add: add.commute)
  finally show "\<exists>rest. drop i t = w @ rest \<and> \<not> word_after rest" using a by blast
qed

lemma occurs_a:
  "shape_a w \<and> occurs_at w t i \<longleftrightarrow>
   i \<le> length t \<and> match_here pattern_a (last_char None (take i t)) (drop i t) = Some w"
proof (cases "i \<le> length t")
  case True
  show ?thesis
    unfolding match_pattern_a_iff split_at [OF True] occurs_at_def using True by blast
next
  case False
  then show ?thesis by (simp add: occurs_at_def substring_at_def)
qed

lemma occurs_b:
  "shape_b w \<and> occurs_at w t i \<longleftrightarrow>
   i \<le> length t \<and> match_here pattern_b (last_char None (take i t)) (drop i t) = Some w"
proof (cases "i \<le> length t")
  case True
  show ?thesis
    unfolding match_pattern_b_iff split_at [OF True] occurs_at_def using True by blast
next
  case False
  then show ?thesis by (simp add: occurs_at_def substring_at_def)
qed

lemma shape_a_nonempty: "shape_a w \<Longrightarrow> w \<noteq> []"
  by (auto simp: shape_a_def)

lemma shape_b_nonempty: "shape_b w \<Longrightarrow> w \<noteq> []"
  by (auto simp: shape_b_def)

lemma search_leftmost:
  assumes occ: "\<And>w i. S w \<and> occurs_at w t i \<longleftrightarrow>
                  i \<le> length t \<and> match_here p (last_char None (take i t)) (drop i t) = Some w"
    and ex: "S w0 \<and> occurs_at w0 t i0"
  shows "\<exists>m i. re_search p t = Some m \<and> S m \<and> occurs_at m t i \<and>
           (\<forall>w j. S w \<and> occurs_at w t j \<longrightarrow> i \<le> j)"
proof -
  from ex occ have i0: "i0 \<le> length t"
    and m0: "match_here p (last_char None (take i0 t)) (drop i0 t) = Some w0" by blast+
  have "search_from p None t \<noteq> None"
  proof
    assume "search_from p None t = None"
    then have "match_here p (last_char None (take i0 t)) (drop i0 t) = None"
      using i0 by (simp add: search_from_None)
    with m0 show False by simp
  qed
  then obtain m where s: "search_from p None t = Some m" by blast
  from search_from_Some [OF s] obtain i where i: "i \<le> length t"
    and mi: "match_here p (last_char None (take i t)) (drop i t) = Some m"
    and ni: "\<forall>j < i. match_here p (last_char None (take j t)) (drop j t) = None" by blast
  from i mi occ have om: "S m \<and> occurs_at m t i" by blast
  have "\<forall>w j. S w \<and> occurs_at w t j \<longrightarrow> i \<le> j"
  proof (intro allI impI)
    fix w j assume "S w \<and> occurs_at w t j"
    with occ have mj: "match_here p (last_char None (take j t)) (drop j t) = Some w" by blast
    show "i \<le> j"
    proof (rule ccontr)
      assume "\<not> i \<le> j"
      then have "j < i" by simp
      with ni have "match_here p (last_char None (take j t)) (drop j t) = None" by blast
      with mj show False by simp
    qed
  qed
  with s om show ?thesis by (auto simp: re_search_def)
qed

lemma search_nowhere:
  assumes occ: "\<And>w i. S w \<and> occurs_at w t i \<longleftrightarrow>
                  i \<le> length t \<and> match_here p (last_char None (take i t)) (drop i t) = Some w"
    and no: "\<not> (\<exists>w i. S w \<and> occurs_at w t i)"
  shows "re_search p t = None"
proof (cases "search_from p None t")
  case None
  then show ?thesis by (simp add: re_search_def)
next
  case (Some m)
  from search_from_Some [OF Some] obtain i where "i \<le> length t"
    and "match_here p (last_char None (take i t)) (drop i t) = Some m" by blast
  with occ have "S m \<and> occurs_at m t i" by blast
  with no show ?thesis by blast
qed

lemma first_match_empty: "first_match REF_PATTERNS [] = []"
proof -
  have "\<not> (\<exists>w i. shape_a w \<and> occurs_at w [] i)"
    by (auto simp: occurs_at_def substring_at_def dest: shape_a_nonempty)
  then have a: "re_search pattern_a [] = None"
    by (rule search_nowhere [where S = shape_a, OF occurs_a])
  have "\<not> (\<exists>w i. shape_b w \<and> occurs_at w [] i)"
    by (auto simp: occurs_at_def substring_at_def dest: shape_b_nonempty)
  then have b: "re_search pattern_b [] = None"
    by (rule search_nowhere [where S = shape_b, OF occurs_b])
  from a b show ?thesis by (simp add: REF_PATTERNS_def)
qed

lemma extract_reference_eq: "extract_reference text = first_match REF_PATTERNS (upper text)"
  by (cases "text = []") (simp_all add: extract_reference_def upper_def first_match_empty)

subsection \<open>Reference extraction\<close>

lemma shape_a_example: "shape_a ''CD-3''"
  unfolding shape_a_def
  by (rule exI [of _ "''CD''"], rule exI [of _ "''3''"])
     (simp add: is_upper_def is_digit_def uppercase_letters_def digits_def)

lemma shape_b_example: "shape_b ''AB12''"
  unfolding shape_b_def
  by (rule exI [of _ "''AB''"], rule exI [of _ "''12''"])
     (simp add: is_upper_def is_digit_def uppercase_letters_def digits_def)

text \<open>
  Claim C2, as stated, fails: the result is not always the first match of either
  pattern reading left to right. In \<^verbatim>\<open>"AB12 CD-3"\<close> the substring \<^verbatim>\<open>AB12\<close> at position 0
  has shape (b), so the first match of either pattern starts at position 0; the
  function returns \<^verbatim>\<open>CD-3\<close>, which is not the substring at position 0, because the
  loop searches the whole text for pattern (a) before it tries pattern (b).
\<close>

theorem extract_reference_counterexample:
  "extract_reference ''AB12 CD-3'' = ''CD-3'' \<and>
   shape_b ''AB12'' \<and> substring_at ''AB12'' (upper ''AB12 CD-3'') 0 \<and>
   \<not> substring_at ''CD-3'' (upper ''AB12 CD-3'') 0"
proof -
  have 1: "extract_reference ''AB12 CD-3'' = ''CD-3''"
    by code_simp
  have 2: "substring_at ''AB12'' (upper ''AB12 CD-3'') 0"
    by code_simp
  have 3: "\<not> substring_at ''CD-3'' (upper ''AB12 CD-3'') 0"
    by code_simp
  from 1 shape_b_example 2 3 show ?thesis
    by (intro conjI)
qed

text \<open>
  Claim C2, amended. On the uppercased text, \<^verbatim>\<open>extract_reference\<close> returns the leftmost
  occurrence, as a word of its own, of a code of shape (a) whenever the text has one
  anywhere; only when it has none, the leftmost such occurrence of a code of shape
  (b); and the empty string when it has neither.
\<close>

theorem extract_reference_pattern_priority:
  "((\<exists>w i. shape_a w \<and> occurs_at w (upper text) i) \<longrightarrow>
      shape_a (extract_reference text) \<and>
      (\<exists>i. occurs_at (extract_reference text) (upper text) i \<and>
           (\<forall>w j. shape_a w \<and> occurs_at w (upper text) j \<longrightarrow> i \<le> j))) \<and>
   (\<not> (\<exists>w i. shape_a w \<and> occurs_at w (upper text) i) \<and>
    (\<exists>w i. shape_b w \<and> occurs_at w (upper text) i) \<longrightarrow>
      shape_b (extract_reference text) \<and>
      (\<exists>i. occurs_at (extract_reference text) (upper text) i \<and>
           (\<forall>w j. shape_b w \<and> occurs_at w (upper text) j \<longrightarrow> i \<le> j))) \<and>
   (\<not> (\<exists>w i. shape_a w \<and> occurs_at w (upper text) i) \<and>
    \<not> (\<exists>w i. shape_b w \<and> occurs_at w (upper text) i) \<longrightarrow>
      extract_reference text = [])"
proof (intro conjI impI)
  let ?t = "upper text"
  assume "\<exists>w i. shape_a w \<and> occurs_at w ?t i"
  then obtain w0 i0 where "shape_a w0 \<and> occurs_at w0 ?t i0" by blast
  from search_leftmost [where S = shape_a, OF occurs_a this] obtain m i where
    s: "re_search pattern_a ?t = Some m" and m: "shape_a m" "occurs_at m ?t i"
    and l: "\<forall>w j. shape_a w \<and> occurs_at w ?t j \<longrightarrow> i \<le> j" by blast
  from s have e: "extract_reference text = m"
    by (simp add: extract_reference_eq REF_PATTERNS_def)
  from m(1) e show "shape_a (extract_reference text)" by simp
  from m(2) l e show "\<exists>i. occurs_at (extract_reference text) ?t i \<and>
           (\<forall>w j. shape_a w \<and> occurs_at w ?t j \<longrightarrow> i \<le> j)" by blast
next
  let ?t = "upper text"
  assume a: "\<not> (\<exists>w i. shape_a w \<and> occurs_at w ?t i) \<and> (\<exists>w i. shape_b w \<and> occurs_at w ?t i)"
  then have na: "re_search pattern_a ?t = None"
    by (intro search_nowhere [where S = shape_a, OF occurs_a]) simp
  from a obtain w0 i0 where "shape_b w0 \<and> occurs_at w0 ?t i0" by blast
  from search_leftmost [where S = shape_b, OF occurs_b this] obtain m i where
    s: "re_search pattern_b ?t = Some m" and m: "shape_b m" "occurs_at m ?t i"
    and l: "\<forall>w j. shape_b w \<and> occurs_at w ?t j \<longrightarrow> i \<le> j" by blast
  from na s have e: "extract_reference text = m"
    by (simp add: extract_reference_eq REF_PATTERNS_def)
  from m(1) e show "shape_b (extract_reference text)" by simp
  from m(2) l e show "\<exists>i. occurs_at (extract_reference text) ?t i \<and>
           (\<forall>w j. shape_b w \<and> occurs_at w ?t j \<longrightarrow> i \<le> j)" by blast
next
  let ?t = "upper text"
  assume a: "\<not> (\<exists>w i. shape_a w \<and> occurs_at w ?t i) \<and> \<not> (\<exists>w i. shape_b w \<and> occurs_at w ?t i)"
  then have na: "re_search pattern_a ?t = None"
    by (intro search_nowhere [where S = shape_a, OF occurs_a]) simp
  from a have nb: "re_search pattern_b ?t = None"
    by (intro search_nowhere [where S = shape_b, OF occurs_b]) simp
  from na nb show "extract_reference text = []"
    by (simp add: extract_reference_eq REF_PATTERNS_def)
qed

theorem extract_reference_pattern_priority_witness:
  "shape_a ''CD-3'' \<and> occurs_at ''CD-3'' (upper ''AB12 CD-3'') 5 \<and>
   shape_a (extract_reference ''AB12 CD-3'')"
proof -
  have o: "occurs_at ''CD-3'' (upper ''AB12 CD-3'') 5"
    by code_simp
  from shape_a_example o have "\<exists>w i. shape_a w \<and> occurs_at w (upper ''AB12 CD-3'') i"
    by blast
  with extract_reference_pattern_priority [of "''AB12 CD-3''"]
  have "shape_a (extract_reference ''AB12 CD-3'')"
    by blast
  with shape_a_example o show ?thesis
    by (intro conjI)
qed

text \<open>
  The examples of the specification, a lower-case code, and a code that is not a word
  of its own.
\<close>

lemma extract_reference_examples:
  "extract_reference ''Payment ref ABC-123 received'' = ''ABC-123'' \<and>
   extract_reference ''no codes here'' = [] \<and>
   extract_reference ''paid abc-77 today'' = ''ABC-77'' \<and>
   extract_reference ''XAB-12Y'' = []"
  by code_simp

end
